theory Spec2Isabelle
  imports Main
begin

section \<open>Calendar dates\<close>

text \<open>
  The script works on \<open>datetime\<close> objects of the Python standard library.  Every date the
  command line produces is a midnight value, and the default range, from today to eight
  months later, has the same time of day at both ends, which no difference, comparison or
  format used here can see; so a date is modelled by its three calendar fields.  The
  functions below follow the standard library's proleptic Gregorian calendar
  (\<open>_is_leap\<close>, \<open>_days_before_year\<close>, \<open>_days_in_month\<close>, \<open>_days_before_month\<close>,
  \<open>_ymd2ord\<close>, \<open>_ord2ymd\<close>), on which \<open>toordinal\<close>, \<open>fromordinal\<close>, \<open>weekday\<close> and the
  subtraction of a \<open>timedelta\<close> are built.
\<close>

record date =
  year :: int
  month :: int
  day :: int

definition MINYEAR :: int where
  "MINYEAR = 1"

definition MAXYEAR :: int where
  "MAXYEAR = 9999"

definition MAXORDINAL :: int where
  "MAXORDINAL = 3652059"

definition DAYS_IN_MONTH :: "int list" where
  "DAYS_IN_MONTH = [-1, 31, 28, 31, 30, 31, 30, 31, 31, 30, 31, 30, 31]"

definition DAYS_BEFORE_MONTH :: "int list" where
  "DAYS_BEFORE_MONTH = [-1, 0, 31, 59, 90, 120, 151, 181, 212, 243, 273, 304, 334]"

definition is_leap :: "int \<Rightarrow> bool" where
  "is_leap y = (y mod 4 = 0 \<and> (y mod 100 \<noteq> 0 \<or> y mod 400 = 0))"

definition days_before_year :: "int \<Rightarrow> int" where
  "days_before_year y0 = (let y = y0 - 1 in y * 365 + y div 4 - y div 100 + y div 400)"

definition days_in_month :: "int \<Rightarrow> int \<Rightarrow> int" where
  "days_in_month y m = (if m = 2 \<and> is_leap y then 29 else DAYS_IN_MONTH ! nat m)"

definition days_before_month :: "int \<Rightarrow> int \<Rightarrow> int" where
  "days_before_month y m = DAYS_BEFORE_MONTH ! nat m + (if m > 2 \<and> is_leap y then 1 else 0)"

definition ymd2ord :: "int \<Rightarrow> int \<Rightarrow> int \<Rightarrow> int" where
  "ymd2ord y m d = days_before_year y + days_before_month y m + d"

definition DI400Y :: int where
  "DI400Y = days_before_year 401"

definition DI100Y :: int where
  "DI100Y = days_before_year 101"

definition DI4Y :: int where
  "DI4Y = days_before_year 5"

definition ord2ymd :: "int \<Rightarrow> date" where
  "ord2ymd n0 =
     (let n = n0 - 1;
          n400 = n div DI400Y; n = n mod DI400Y;
          y = n400 * 400 + 1;
          n100 = n div DI100Y; n = n mod DI100Y;
          n4 = n div DI4Y; n = n mod DI4Y;
          n1 = n div 365; n = n mod 365;
          y = y + n100 * 100 + n4 * 4 + n1
      in if n1 = 4 \<or> n100 = 4 then \<lparr>year = y - 1, month = 12, day = 31\<rparr>
         else
           let leapyear = (n1 = 3 \<and> (n4 \<noteq> 24 \<or> n100 = 3));
               m = (n + 50) div 32;
               preceding = DAYS_BEFORE_MONTH ! nat m + (if m > 2 \<and> leapyear then 1 else 0)
           in if preceding > n then
                let m = m - 1;
                    preceding = preceding
                      - (DAYS_IN_MONTH ! nat m + (if m = 2 \<and> leapyear then 1 else 0))
                in \<lparr>year = y, month = m, day = n - preceding + 1\<rparr>
              else \<lparr>year = y, month = m, day = n - preceding + 1\<rparr>)"

text \<open>
  The constructor's range check (\<open>_check_date_fields\<close>): a \<open>datetime\<close> object exists only
  for fields that pass it, so these are the dates the script can hold.
\<close>

definition valid_date :: "date \<Rightarrow> bool" where
  "valid_date d =
     (MINYEAR \<le> year d \<and> year d \<le> MAXYEAR \<and> 1 \<le> month d \<and> month d \<le> 12
      \<and> 1 \<le> day d \<and> day d \<le> days_in_month (year d) (month d))"

definition toordinal :: "date \<Rightarrow> int" where
  "toordinal d = ymd2ord (year d) (month d) (day d)"

text \<open>\<open>datetime.fromordinal\<close> raises \<open>ValueError\<close> outside the supported range.\<close>

definition fromordinal :: "int \<Rightarrow> date option" where
  "fromordinal n =
     (if n < 1 then None
      else let d = ord2ymd n in if valid_date d then Some d else None)"

text \<open>\<open>weekday()\<close>: Monday is 0 and Sunday is 6.\<close>

definition weekday :: "date \<Rightarrow> int" where
  "weekday d = (toordinal d + 6) mod 7"

text \<open>
  \<open>d - timedelta(days=i)\<close>: the result is taken from the ordinal, and \<open>OverflowError\<close> is
  raised when it leaves the range of ordinals.
\<close>

definition minus_days :: "date \<Rightarrow> int \<Rightarrow> date option" where
  "minus_days d i =
     (let n = toordinal d - i
      in if 0 < n \<and> n \<le> MAXORDINAL then fromordinal n else None)"

text \<open>\<open>(e - s).days\<close> for two midnight values.\<close>

definition days_between :: "date \<Rightarrow> date \<Rightarrow> int" where
  "days_between e s = toordinal e - toordinal s"


subsection \<open>Formatting and parsing\<close>

text \<open>
  The three format strings of the script.  \<open>strftime\<close> hands \<open>%Y\<close> to the C library,
  which on Linux writes the year in decimal without padding: four digits from the year
  1000 on, fewer before.  \<open>%m\<close> and \<open>%d\<close> are two digits each, padded with zeros; the
  rest of a format is literal text.
\<close>

datatype date_format = INPUT_DATE_FORMAT | ISO_DATE_FORMAT_REQUEST | ISO_DATE_FORMAT_RESPONSE

definition digit :: "int \<Rightarrow> char" where
  "digit k = char_of (48 + k)"

definition zero_pad2 :: "int \<Rightarrow> string" where
  "zero_pad2 n = [digit (n div 10 mod 10), digit (n mod 10)]"

text \<open>\<open>str\<close> of an integer: its decimal digits, with a sign when negative.\<close>

fun str_nat :: "nat \<Rightarrow> string" where
  "str_nat n = (if n < 10 then [digit (int n)] else str_nat (n div 10) @ [digit (int (n mod 10))])"

declare str_nat.simps [simp del]

definition str_int :: "int \<Rightarrow> string" where
  "str_int i = (if i < 0 then CHR ''-'' # str_nat (nat (- i)) else str_nat (nat i))"

definition strftime_ymd :: "date \<Rightarrow> string" where
  "strftime_ymd d =
     str_int (year d) @ ''-'' @ zero_pad2 (month d) @ ''-'' @ zero_pad2 (day d)"

fun format_date :: "date \<Rightarrow> date_format \<Rightarrow> string" where
  "format_date d INPUT_DATE_FORMAT = strftime_ymd d"
| "format_date d ISO_DATE_FORMAT_REQUEST = strftime_ymd d @ ''T00:00:00.000Z''"
| "format_date d ISO_DATE_FORMAT_RESPONSE = strftime_ymd d @ ''T00:00:00Z''"

definition is_digit :: "char \<Rightarrow> bool" where
  "is_digit c = ((48::int) \<le> of_char c \<and> of_char c \<le> (57::int))"

definition digit_value :: "char \<Rightarrow> int" where
  "digit_value c = of_char c - 48"

definition number :: "string \<Rightarrow> int" where
  "number cs = foldl (\<lambda>acc c. 10 * acc + digit_value c) 0 cs"

text \<open>
  \<open>datetime.strptime(dstr, ISO_DATE_FORMAT_RESPONSE)\<close>: \<open>%Y\<close> reads exactly four digits,
  then come two digits, two digits and the literal tail; the fields then go through the
  constructor's range check.  Any failure is the \<open>ValueError\<close> of the library, here
  \<open>None\<close>; a year that \<open>format_date\<close> wrote with fewer than four digits is one.  (The
  library also reads a month or day written without its padding zero; the analyzer parses
  only strings it has found in its own set of formatted dates, where the two agree.)
\<close>

definition strptime_response :: "string \<Rightarrow> date option" where
  "strptime_response s =
     (if length s = 20 \<and> list_all is_digit (take 4 s) \<and> s ! 4 = CHR ''-''
         \<and> list_all is_digit (take 2 (drop 5 s)) \<and> s ! 7 = CHR ''-''
         \<and> list_all is_digit (take 2 (drop 8 s)) \<and> drop 10 s = ''T00:00:00Z''
      then let d = \<lparr>year = number (take 4 s), month = number (take 2 (drop 5 s)),
                     day = number (take 2 (drop 8 s))\<rparr>
           in if valid_date d then Some d else None
      else None)"

section \<open>Availability analyzer\<close>

text \<open>
  The set \<open>dates\<close> of \<open>get_num_available_sites\<close>: the days \<open>end_date - i\<close> for
  \<open>i\<close> in \<open>range(1, num_days + 1)\<close>, kept when the weekday is above 3 and at most 6, and
  written in the response format.  The list is used as a set, through \<open>set\<close>.
\<close>

definition candidate_dates :: "date \<Rightarrow> date \<Rightarrow> string list option" where
  "candidate_dates start_date end_date =
     (let num_days = days_between end_date start_date
      in case those (map (\<lambda>i. minus_days end_date i) [1..num_days]) of
           None \<Rightarrow> None
         | Some dates0 \<Rightarrow>
             Some (map (\<lambda>i. format_date i ISO_DATE_FORMAT_RESPONSE)
                     (filter (\<lambda>d. weekday d > 3 \<and> weekday d \<le> 6) dates0)))"

text \<open>
  \<open>itertools.groupby\<close> on a list of elements paired with their keys: a group is a
  longest stretch of neighbours whose key equals the key of its first element.
\<close>

function groupby :: "('k \<times> 'a) list \<Rightarrow> ('k \<times> 'a list) list" where
  "groupby [] = []"
| "groupby ((k, x) # kxs) =
     (k, x # map snd (takeWhile (\<lambda>p. fst p = k) kxs))
       # groupby (dropWhile (\<lambda>p. fst p = k) kxs)"
  by pat_completeness auto
termination
  by (relation "measure length") (auto simp: less_Suc_eq_le length_dropWhile_le)

text \<open>
  The key function \<open>lambda x: x - next(c)\<close> is called once per element, in order, with
  the counter \<open>c\<close> starting at 0: the key of the element at position \<open>i\<close> is the element
  minus \<open>i\<close>.
\<close>

definition counted_keys :: "int list \<Rightarrow> (int \<times> int) list" where
  "counted_keys ordinal_dates = map (\<lambda>(i, x). (x - int i, x)) (enumerate 0 ordinal_dates)"

text \<open>
  \<open>consecutive_nights\<close> returns whether some group is at least \<open>nights\<close> long; the second
  component is what it prints, the date list of every such group in the input format.
\<close>

definition consecutive_nights :: "string list \<Rightarrow> int \<Rightarrow> (bool \<times> string list list) option" where
  "consecutive_nights available nights =
     (case those (map strptime_response available) of
        None \<Rightarrow> None
      | Some parsed \<Rightarrow>
          let ordinal_dates = map toordinal parsed;
              groups = groupby (counted_keys ordinal_dates);
              long = filter (\<lambda>(key, l). int (length l) \<ge> nights) groups
          in case those (map (\<lambda>(key, l).
                    those (map (\<lambda>dor. map_option (\<lambda>d. format_date d INPUT_DATE_FORMAT)
                                        (fromordinal dor)) l)) long) of
               None \<Rightarrow> None
             | Some options \<Rightarrow> Some (length options > 0, options))"

text \<open>
  The loop over the sites of \<open>park_information\<close>, a dictionary in insertion order.  The
  state is the counter \<open>num_available\<close> and the lines printed so far: for each site that
  counts, its identifier with the options printed for it.
\<close>

type_synonym park_information = "(string \<times> string list) list"

type_synonym site_report = "string \<times> string list list"

fun sites_loop ::
  "string list \<Rightarrow> int \<Rightarrow> park_information \<Rightarrow> nat \<times> site_report list
    \<Rightarrow> (nat \<times> site_report list) option" where
  "sites_loop dates nights [] st = Some st"
| "sites_loop dates nights ((site, availabilities) # rest) (num_available, printed) =
     (let desired_available = filter (\<lambda>date. date \<in> set dates) availabilities
      in if desired_available = [] then sites_loop dates nights rest (num_available, printed)
         else case consecutive_nights desired_available nights of
                None \<Rightarrow> None
              | Some (found, options) \<Rightarrow>
                  if found
                  then sites_loop dates nights rest
                         (num_available + 1, printed @ [(site, options)])
                  else sites_loop dates nights rest (num_available, printed))"

definition effective_nights :: "int option \<Rightarrow> int \<Rightarrow> int" where
  "effective_nights nights num_days =
     (case nights of
        None \<Rightarrow> num_days
      | Some n \<Rightarrow> if \<not> (1 \<le> n \<and> n < num_days + 1) then num_days else n)"

definition get_num_available_sites ::
  "park_information \<Rightarrow> date \<Rightarrow> date \<Rightarrow> int option
    \<Rightarrow> ((nat \<times> nat) \<times> site_report list) option" where
  "get_num_available_sites park_information start_date end_date nights =
     (let maximum = length park_information;
          num_days = days_between end_date start_date
      in case candidate_dates start_date end_date of
           None \<Rightarrow> None
         | Some dates \<Rightarrow>
             (case sites_loop dates (effective_nights nights num_days) park_information (0, []) of
                None \<Rightarrow> None
              | Some (num_available, printed) \<Rightarrow> Some ((num_available, maximum), printed)))"


section \<open>Fetcher and normalizer\<close>

text \<open>
  A month payload of the availability endpoint: \<open>month_data["campsites"]\<close> is a
  dictionary from campsite identifier to an entry with a \<open>campsite_type\<close> label and an
  \<open>availabilities\<close> dictionary from date string to status string.  Dictionaries are lists
  of items in iteration order.
\<close>

record campsite =
  campsite_type :: string
  availabilities :: "(string \<times> string) list"

type_synonym month_data = "(string \<times> campsite) list"

text \<open>The truth value Python gives the \<open>campsite_type\<close> argument, \<open>None\<close> or a string.\<close>

definition truthy :: "string option \<Rightarrow> bool" where
  "truthy ctype = (case ctype of None \<Rightarrow> False | Some t \<Rightarrow> t \<noteq> [])"

text \<open>The innermost loop, which fills the list \<open>available\<close> of one campsite entry.\<close>

fun available_loop ::
  "string option \<Rightarrow> string \<Rightarrow> (string \<times> string) list \<Rightarrow> string list \<Rightarrow> string list" where
  "available_loop ctype declared [] available = available"
| "available_loop ctype declared ((date, availability_value) # rest) available =
     (if availability_value \<noteq> ''Available'' then available_loop ctype declared rest available
      else if truthy ctype \<and> ctype \<noteq> Some declared
      then available_loop ctype declared rest available
      else available_loop ctype declared rest (available @ [date]))"

text \<open>\<open>a = data.setdefault(campsite_id, []); a += available\<close>.\<close>

fun setdefault_extend :: "park_information \<Rightarrow> string \<Rightarrow> string list \<Rightarrow> park_information" where
  "setdefault_extend [] campsite_id available = [(campsite_id, available)]"
| "setdefault_extend ((k, a) # data) campsite_id available =
     (if k = campsite_id then (k, a @ available) # data
      else (k, a) # setdefault_extend data campsite_id available)"

fun campsites_loop :: "string option \<Rightarrow> month_data \<Rightarrow> park_information \<Rightarrow> park_information" where
  "campsites_loop ctype [] data = data"
| "campsites_loop ctype ((campsite_id, campsite_data) # rest) data =
     (let available = available_loop ctype (campsite_type campsite_data)
                        (availabilities campsite_data) []
      in if available \<noteq> []
         then campsites_loop ctype rest (setdefault_extend data campsite_id available)
         else campsites_loop ctype rest data)"

fun months_loop :: "string option \<Rightarrow> month_data list \<Rightarrow> park_information \<Rightarrow> park_information" where
  "months_loop ctype [] data = data"
| "months_loop ctype (month_data # api_data) data =
     months_loop ctype api_data (campsites_loop ctype month_data data)"

text \<open>
  \<open>rrule.rrule(rrule.MONTHLY, dtstart=start_of_month, until=end_date)\<close> with the start on
  the first of a month: the first of each following month, as long as it is not after
  \<open>until\<close> and the year is supported.  Dates compare field by field.
\<close>

definition date_less :: "date \<Rightarrow> date \<Rightarrow> bool" where
  "date_less a b =
     (year a < year b \<or> (year a = year b
        \<and> (month a < month b \<or> (month a = month b \<and> day a < day b))))"

function rrule_monthly :: "int \<Rightarrow> int \<Rightarrow> date \<Rightarrow> date list" where
  "rrule_monthly y m until =
     (if date_less until \<lparr>year = y, month = m, day = 1\<rparr> then []
      else \<lparr>year = y, month = m, day = 1\<rparr> #
        (if m + 1 > 12
         then (if y + 1 > MAXYEAR then [] else rrule_monthly (y + 1) 1 until)
         else rrule_monthly y (m + 1) until))"
  by pat_completeness auto
termination
  by (relation "measures [\<lambda>(y, m, until). nat (MAXYEAR + 1 - y), \<lambda>(y, m, until). nat (13 - m)]")
     auto

definition BASE_URL :: string where
  "BASE_URL = ''https://www.recreation.gov''"

definition AVAILABILITY_ENDPOINT :: string where
  "AVAILABILITY_ENDPOINT = ''/api/camps/availability/campground/''"

text \<open>
  \<open>get_park_information\<close>.  The web service is the parameter \<open>send_request\<close>, from the URL
  and the \<open>start_date\<close> parameter to the decoded answer, \<open>None\<close> for a status other than
  200.  The result pairs the requests sent, in order, with the dictionary returned.
\<close>

definition month_requests :: "int \<Rightarrow> date \<Rightarrow> date \<Rightarrow> (string \<times> string) list" where
  "month_requests park_id start_date end_date =
     (let months = rrule_monthly (year start_date) (month start_date) end_date
      in map (\<lambda>month_date.
                (BASE_URL @ AVAILABILITY_ENDPOINT @ str_int park_id @ ''/month?'',
                 format_date month_date ISO_DATE_FORMAT_REQUEST)) months)"

definition get_park_information ::
  "(string \<Rightarrow> string \<Rightarrow> month_data option) \<Rightarrow> int \<Rightarrow> date \<Rightarrow> date \<Rightarrow> string option
    \<Rightarrow> (string \<times> string) list \<times> park_information" where
  "get_park_information send_request park_id start_date end_date ctype =
     (let requests = month_requests park_id start_date end_date;
          api_data = List.map_filter (\<lambda>(url, params). send_request url params) requests
      in (requests, months_loop ctype api_data []))"

text \<open>A call that leaves the \<open>campsite_type\<close> argument out takes the default of the signature.\<close>

definition get_park_information_default ::
  "(string \<Rightarrow> string \<Rightarrow> month_data option) \<Rightarrow> int \<Rightarrow> date \<Rightarrow> date
    \<Rightarrow> (string \<times> string) list \<times> park_information" where
  "get_park_information_default send_request park_id start_date end_date =
     get_park_information send_request park_id start_date end_date
       (Some ''STANDARD NONELECTRIC'')"

section \<open>Grouped-file mode\<close>

text \<open>
  What one call \<open>main(parks_dict[park])\<close> does, seen from the loop around it: it returns
  whether any park had availability, or it raises an \<open>Exception\<close>.  The loop keeps the
  counter \<open>code\<close>, which it hands to \<open>sys.exit\<close> at the end.
\<close>

datatype main_outcome = Returns bool | Raises

fun grouped_loop :: "main_outcome list \<Rightarrow> int \<Rightarrow> int" where
  "grouped_loop [] code = code"
| "grouped_loop (Returns found # rest) code =
     grouped_loop rest (if found then code + 0 else code + 1)"
| "grouped_loop (Raises # rest) code = grouped_loop rest code"

definition grouped_exit_code :: "main_outcome list \<Rightarrow> int" where
  "grouped_exit_code outcomes = grouped_loop outcomes 0"


section \<open>Vocabulary of the properties\<close>

text \<open>
  The tail of \<open>ord2ymd\<close>, from the estimate of the month onwards, under a name of its
  own: it turns the position of a day in its year into month and day.
\<close>

definition month_and_day :: "bool \<Rightarrow> int \<Rightarrow> int \<times> int" where
  "month_and_day leapyear n =
     (let m = (n + 50) div 32;
          preceding = DAYS_BEFORE_MONTH ! nat m + (if m > 2 \<and> leapyear then 1 else 0)
      in if preceding > n then
           let m = m - 1;
               preceding = preceding
                 - (DAYS_IN_MONTH ! nat m + (if m = 2 \<and> leapyear then 1 else 0))
           in (m, n - preceding + 1)
         else (m, n - preceding + 1))"

text \<open>
  What \<open>consecutive_nights\<close> does to one date string on its way to the printed option:
  parse, \<open>toordinal\<close>, \<open>fromordinal\<close>, format.
\<close>

definition report_date :: "string \<Rightarrow> string option" where
  "report_date dstr =
     (case strptime_response dstr of
        None \<Rightarrow> None
      | Some d \<Rightarrow> map_option (\<lambda>d'. format_date d' INPUT_DATE_FORMAT) (fromordinal (toordinal d)))"

text \<open>Whether the analyzer has the day \<open>d\<close> in its set \<open>dates\<close>.\<close>

definition is_candidate :: "date \<Rightarrow> date \<Rightarrow> date \<Rightarrow> bool" where
  "is_candidate start_date end_date d =
     (case candidate_dates start_date end_date of
        None \<Rightarrow> False
      | Some dates \<Rightarrow> format_date d ISO_DATE_FORMAT_RESPONSE \<in> set dates)"

text \<open>
  The candidate days in the words of the specification: after the start day, up to and
  including the end day, on a Friday, Saturday or Sunday.
\<close>

definition spec_candidate_day :: "date \<Rightarrow> date \<Rightarrow> date \<Rightarrow> bool" where
  "spec_candidate_day start_date end_date d =
     (toordinal start_date < toordinal d \<and> toordinal d \<le> toordinal end_date
      \<and> weekday d \<in> {4, 5, 6})"

text \<open>
  The day numbers of a site's available dates that lie in the set \<open>dates\<close>, and a maximal
  run of consecutive day numbers in a set.
\<close>

definition filtered_days :: "string list \<Rightarrow> string list \<Rightarrow> int set" where
  "filtered_days dates available =
     set (map toordinal
            (List.map_filter strptime_response (filter (\<lambda>date. date \<in> set dates) available)))"

definition maximal_run :: "int set \<Rightarrow> int \<Rightarrow> int \<Rightarrow> bool" where
  "maximal_run S a b = (a \<le> b \<and> {a..b} \<subseteq> S \<and> a - 1 \<notin> S \<and> b + 1 \<notin> S)"

text \<open>
  The analyzer in the words of the specification: the day numbers are sorted before they
  are cut into runs.
\<close>

definition spec_consecutive_nights :: "int list \<Rightarrow> int \<Rightarrow> bool" where
  "spec_consecutive_nights ordinal_dates nights =
     (\<exists>(key, l) \<in> set (groupby (counted_keys (sort ordinal_dates))). int (length l) \<ge> nights)"

text \<open>
  The failures of grouped-file mode in the words of the specification: every group that
  did not return with availability, a raised exception included.
\<close>

definition spec_failures :: "main_outcome list \<Rightarrow> int" where
  "spec_failures outcomes = int (length (filter (\<lambda>out. out \<noteq> Returns True) outcomes))"



text \<open>
  A date string survives the normalizer's filter for a site when some month payload lists
  it for that site with the status \<open>Available\<close> and, for a filter that is a non-empty
  string, the entry's declared type is that string.
\<close>

definition survives :: "string option \<Rightarrow> month_data list \<Rightarrow> string \<Rightarrow> string \<Rightarrow> bool" where
  "survives ctype api_data site date \<longleftrightarrow>
     (\<exists>month_data \<in> set api_data. \<exists>campsite_data.
        (site, campsite_data) \<in> set month_data
        \<and> (date, ''Available'') \<in> set (availabilities campsite_data)
        \<and> (truthy ctype \<longrightarrow> ctype = Some (campsite_type campsite_data)))"

text \<open>The invariant of the normalizer's dictionary: no empty list, and only dates with \<open>P\<close>.\<close>

definition data_ok :: "(string \<Rightarrow> string \<Rightarrow> bool) \<Rightarrow> park_information \<Rightarrow> bool" where
  "data_ok P data \<longleftrightarrow> (\<forall>(site, ds) \<in> set data. ds \<noteq> [] \<and> (\<forall>date \<in> set ds. P site date))"

text \<open>
  The lines one pass of the site loop adds for a site: none, or the site with the options
  printed for it.
\<close>

definition site_lines :: "string list \<Rightarrow> int \<Rightarrow> string \<times> string list \<Rightarrow> site_report list" where
  "site_lines dates nights entry =
     (let desired_available = filter (\<lambda>date. date \<in> set dates) (snd entry)
      in if desired_available = [] then []
         else case consecutive_nights desired_available nights of
                Some (True, options) \<Rightarrow> [(fst entry, options)]
              | _ \<Rightarrow> [])"

text \<open>
  Whether a site of the map counts as available: some of its dates are candidate dates,
  and \<open>consecutive_nights\<close> on those returns true.
\<close>

definition site_counts :: "string list \<Rightarrow> int \<Rightarrow> string \<times> string list \<Rightarrow> bool" where
  "site_counts dates nights entry =
     (let desired_available = filter (\<lambda>date. date \<in> set dates) (snd entry)
      in desired_available \<noteq> []
         \<and> (case consecutive_nights desired_available nights of
               Some (found, options) \<Rightarrow> found
             | None \<Rightarrow> False))"

text \<open>
  A date is listed for a site in a dictionary from site to date list when it is in a list
  the dictionary holds under that site.
\<close>

definition listed :: "park_information \<Rightarrow> string \<Rightarrow> string \<Rightarrow> bool" where
  "listed data site date \<longleftrightarrow> (\<exists>ds. (site, ds) \<in> set data \<and> date \<in> set ds)"

section \<open>The calendar\<close>

lemma DI_values: "DI400Y = 146097" "DI100Y = 36524" "DI4Y = 1461"
  by (simp_all add: DI400Y_def DI100Y_def DI4Y_def days_before_year_def)

lemma days_before_year_decomp:
  assumes "0 \<le> b" "b < 4" "0 \<le> c" "c < 25" "0 \<le> e" "e < 4"
  shows "days_before_year (400 * a + 100 * b + 4 * c + e + 1)
         = 146097 * a + 36524 * b + 1461 * c + 365 * e"
proof -
  let ?y = "400 * a + 100 * b + 4 * c + e"
  have d4: "?y div 4 = 100 * a + 25 * b + c"
    by (rule int_div_pos_eq [where r = e]) (use assms in auto)
  have d100: "?y div 100 = 4 * a + b"
    by (rule int_div_pos_eq [where r = "4 * c + e"]) (use assms in auto)
  have d400: "?y div 400 = a"
    by (rule int_div_pos_eq [where r = "100 * b + 4 * c + e"]) (use assms in auto)
  show ?thesis
    unfolding days_before_year_def Let_def using d4 d100 d400 by simp
qed

lemma is_leap_decomp:
  assumes "0 \<le> b" "b < 4" "0 \<le> c" "c < 25" "0 \<le> e" "e < 4"
  shows "is_leap (400 * a + 100 * b + 4 * c + e + 1) \<longleftrightarrow> e = 3 \<and> (c \<noteq> 24 \<or> b = 3)"
proof -
  let ?y = "400 * a + 100 * b + 4 * c + e + 1"
  have m4: "?y mod 4 = (if e = 3 then 0 else e + 1)"
    by (rule int_mod_pos_eq [where q = "100 * a + 25 * b + c + (if e = 3 then 1 else 0)"])
       (use assms in auto)
  have m100: "?y mod 100 = (if e = 3 \<and> c = 24 then 0 else 4 * c + e + 1)"
    by (rule int_mod_pos_eq [where q = "4 * a + b + (if e = 3 \<and> c = 24 then 1 else 0)"])
       (use assms in auto)
  have m400: "?y mod 400 = (if e = 3 \<and> c = 24 \<and> b = 3 then 0 else 100 * b + 4 * c + e + 1)"
    by (rule int_mod_pos_eq [where q = "a + (if e = 3 \<and> c = 24 \<and> b = 3 then 1 else 0)"])
       (use assms in auto)
  show ?thesis
    unfolding is_leap_def m4 m100 m400 using assms by auto
qed

lemma month_cases:
  assumes "1 \<le> (m::int)" "m \<le> 12"
  obtains "m = 1" | "m = 2" | "m = 3" | "m = 4" | "m = 5" | "m = 6"
    | "m = 7" | "m = 8" | "m = 9" | "m = 10" | "m = 11" | "m = 12"
proof -
  have "m = 1 \<or> m = 2 \<or> m = 3 \<or> m = 4 \<or> m = 5 \<or> m = 6
      \<or> m = 7 \<or> m = 8 \<or> m = 9 \<or> m = 10 \<or> m = 11 \<or> m = 12"
    using assms by arith
  then show thesis using that by blast
qed

lemma month_and_day_props:
  assumes "0 \<le> f" "f < 365 + (if leap then 1 else 0)"
  shows "case month_and_day leap f of (m, d) \<Rightarrow>
           1 \<le> m \<and> m \<le> 12 \<and> 1 \<le> d
           \<and> d \<le> DAYS_IN_MONTH ! nat m + (if m = 2 \<and> leap then 1 else 0)
           \<and> DAYS_BEFORE_MONTH ! nat m + (if m > 2 \<and> leap then 1 else 0) + d = f + 1"
proof -
  define m0 where "m0 = (f + 50) div 32"
  have r: "32 * m0 - 50 \<le> f" "f < 32 * m0 - 18"
    unfolding m0_def by arith+
  have "1 \<le> m0" "m0 \<le> 12" using assms r by (auto split: if_splits)
  then show ?thesis
  proof (cases m0 rule: month_cases)
    case 1 then show ?thesis using assms r
      by (cases leap) (simp_all add: month_and_day_def Let_def DAYS_BEFORE_MONTH_def DAYS_IN_MONTH_def flip: m0_def)
  next
    case 2 then show ?thesis using assms r
      by (cases leap) (simp_all add: month_and_day_def Let_def DAYS_BEFORE_MONTH_def DAYS_IN_MONTH_def flip: m0_def)
  next
    case 3 then show ?thesis using assms r
      by (cases leap) (simp_all add: month_and_day_def Let_def DAYS_BEFORE_MONTH_def DAYS_IN_MONTH_def flip: m0_def)
  next
    case 4 then show ?thesis using assms r
      by (cases leap) (simp_all add: month_and_day_def Let_def DAYS_BEFORE_MONTH_def DAYS_IN_MONTH_def flip: m0_def)
  next
    case 5 then show ?thesis using assms r
      by (cases leap) (simp_all add: month_and_day_def Let_def DAYS_BEFORE_MONTH_def DAYS_IN_MONTH_def flip: m0_def)
  next
    case 6 then show ?thesis using assms r
      by (cases leap) (simp_all add: month_and_day_def Let_def DAYS_BEFORE_MONTH_def DAYS_IN_MONTH_def flip: m0_def)
  next
    case 7 then show ?thesis using assms r
      by (cases leap) (simp_all add: month_and_day_def Let_def DAYS_BEFORE_MONTH_def DAYS_IN_MONTH_def flip: m0_def)
  next
    case 8 then show ?thesis using assms r
      by (cases leap) (simp_all add: month_and_day_def Let_def DAYS_BEFORE_MONTH_def DAYS_IN_MONTH_def flip: m0_def)
  next
    case 9 then show ?thesis using assms r
      by (cases leap) (simp_all add: month_and_day_def Let_def DAYS_BEFORE_MONTH_def DAYS_IN_MONTH_def flip: m0_def)
  next
    case 10 then show ?thesis using assms r
      by (cases leap) (simp_all add: month_and_day_def Let_def DAYS_BEFORE_MONTH_def DAYS_IN_MONTH_def flip: m0_def)
  next
    case 11 then show ?thesis using assms r
      by (cases leap) (simp_all add: month_and_day_def Let_def DAYS_BEFORE_MONTH_def DAYS_IN_MONTH_def flip: m0_def)
  next
    case 12 then show ?thesis using assms r
      by (cases leap) (simp_all add: month_and_day_def Let_def DAYS_BEFORE_MONTH_def DAYS_IN_MONTH_def flip: m0_def)
  qed
qed


lemma month_and_day_inverse:
  assumes "1 \<le> m" "m \<le> 12" "1 \<le> d"
    "d \<le> DAYS_IN_MONTH ! nat m + (if m = 2 \<and> leap then 1 else 0)"
  shows "month_and_day leap
           (DAYS_BEFORE_MONTH ! nat m + (if m > 2 \<and> leap then 1 else 0) + d - 1) = (m, d)"
proof -
  define f where "f = DAYS_BEFORE_MONTH ! nat m + (if m > 2 \<and> leap then 1 else 0) + d - 1"
  define m0 where "m0 = (f + 50) div 32"
  have r: "32 * m0 - 50 \<le> f" "f < 32 * m0 - 18"
    unfolding m0_def by arith+
  have "month_and_day leap f = (m, d)"
    using assms(1,2)
  proof (cases m rule: month_cases)
    case 1
    with assms(3,4) r have "m0 = m \<or> m0 = m + 1"
      by (auto simp: f_def DAYS_BEFORE_MONTH_def DAYS_IN_MONTH_def split: if_splits)
    moreover from 1 have "f = DAYS_BEFORE_MONTH ! 1 + (if m > 2 \<and> leap then 1 else 0) + d - 1"
      by (simp add: f_def)
    ultimately show ?thesis
      unfolding month_and_day_def Let_def m0_def [symmetric] using 1 assms(3,4) r
      by (auto simp: DAYS_BEFORE_MONTH_def DAYS_IN_MONTH_def)
  next
    case 2
    with assms(3,4) r have "m0 = m \<or> m0 = m + 1"
      by (auto simp: f_def DAYS_BEFORE_MONTH_def DAYS_IN_MONTH_def split: if_splits)
    moreover from 2 have "f = DAYS_BEFORE_MONTH ! 2 + (if m > 2 \<and> leap then 1 else 0) + d - 1"
      by (simp add: f_def)
    ultimately show ?thesis
      unfolding month_and_day_def Let_def m0_def [symmetric] using 2 assms(3,4) r
      by (auto simp: DAYS_BEFORE_MONTH_def DAYS_IN_MONTH_def)
  next
    case 3
    with assms(3,4) r have "m0 = m \<or> m0 = m + 1"
      by (auto simp: f_def DAYS_BEFORE_MONTH_def DAYS_IN_MONTH_def split: if_splits)
    moreover from 3 have "f = DAYS_BEFORE_MONTH ! 3 + (if m > 2 \<and> leap then 1 else 0) + d - 1"
      by (simp add: f_def)
    ultimately show ?thesis
      unfolding month_and_day_def Let_def m0_def [symmetric] using 3 assms(3,4) r
      by (auto simp: DAYS_BEFORE_MONTH_def DAYS_IN_MONTH_def)
  next
    case 4
    with assms(3,4) r have "m0 = m \<or> m0 = m + 1"
      by (auto simp: f_def DAYS_BEFORE_MONTH_def DAYS_IN_MONTH_def split: if_splits)
    moreover from 4 have "f = DAYS_BEFORE_MONTH ! 4 + (if m > 2 \<and> leap then 1 else 0) + d - 1"
      by (simp add: f_def)
    ultimately show ?thesis
      unfolding month_and_day_def Let_def m0_def [symmetric] using 4 assms(3,4) r
      by (auto simp: DAYS_BEFORE_MONTH_def DAYS_IN_MONTH_def)
  next
    case 5
    with assms(3,4) r have "m0 = m \<or> m0 = m + 1"
      by (auto simp: f_def DAYS_BEFORE_MONTH_def DAYS_IN_MONTH_def split: if_splits)
    moreover from 5 have "f = DAYS_BEFORE_MONTH ! 5 + (if m > 2 \<and> leap then 1 else 0) + d - 1"
      by (simp add: f_def)
    ultimately show ?thesis
      unfolding month_and_day_def Let_def m0_def [symmetric] using 5 assms(3,4) r
      by (auto simp: DAYS_BEFORE_MONTH_def DAYS_IN_MONTH_def)
  next
    case 6
    with assms(3,4) r have "m0 = m \<or> m0 = m + 1"
      by (auto simp: f_def DAYS_BEFORE_MONTH_def DAYS_IN_MONTH_def split: if_splits)
    moreover from 6 have "f = DAYS_BEFORE_MONTH ! 6 + (if m > 2 \<and> leap then 1 else 0) + d - 1"
      by (simp add: f_def)
    ultimately show ?thesis
      unfolding month_and_day_def Let_def m0_def [symmetric] using 6 assms(3,4) r
      by (auto simp: DAYS_BEFORE_MONTH_def DAYS_IN_MONTH_def)
  next
    case 7
    with assms(3,4) r have "m0 = m \<or> m0 = m + 1"
      by (auto simp: f_def DAYS_BEFORE_MONTH_def DAYS_IN_MONTH_def split: if_splits)
    moreover from 7 have "f = DAYS_BEFORE_MONTH ! 7 + (if m > 2 \<and> leap then 1 else 0) + d - 1"
      by (simp add: f_def)
    ultimately show ?thesis
      unfolding month_and_day_def Let_def m0_def [symmetric] using 7 assms(3,4) r
      by (auto simp: DAYS_BEFORE_MONTH_def DAYS_IN_MONTH_def)
  next
    case 8
    with assms(3,4) r have "m0 = m \<or> m0 = m + 1"
      by (auto simp: f_def DAYS_BEFORE_MONTH_def DAYS_IN_MONTH_def split: if_splits)
    moreover from 8 have "f = DAYS_BEFORE_MONTH ! 8 + (if m > 2 \<and> leap then 1 else 0) + d - 1"
      by (simp add: f_def)
    ultimately show ?thesis
      unfolding month_and_day_def Let_def m0_def [symmetric] using 8 assms(3,4) r
      by (auto simp: DAYS_BEFORE_MONTH_def DAYS_IN_MONTH_def)
  next
    case 9
    with assms(3,4) r have "m0 = m \<or> m0 = m + 1"
      by (auto simp: f_def DAYS_BEFORE_MONTH_def DAYS_IN_MONTH_def split: if_splits)
    moreover from 9 have "f = DAYS_BEFORE_MONTH ! 9 + (if m > 2 \<and> leap then 1 else 0) + d - 1"
      by (simp add: f_def)
    ultimately show ?thesis
      unfolding month_and_day_def Let_def m0_def [symmetric] using 9 assms(3,4) r
      by (auto simp: DAYS_BEFORE_MONTH_def DAYS_IN_MONTH_def)
  next
    case 10
    with assms(3,4) r have "m0 = m \<or> m0 = m + 1"
      by (auto simp: f_def DAYS_BEFORE_MONTH_def DAYS_IN_MONTH_def split: if_splits)
    moreover from 10 have "f = DAYS_BEFORE_MONTH ! 10 + (if m > 2 \<and> leap then 1 else 0) + d - 1"
      by (simp add: f_def)
    ultimately show ?thesis
      unfolding month_and_day_def Let_def m0_def [symmetric] using 10 assms(3,4) r
      by (auto simp: DAYS_BEFORE_MONTH_def DAYS_IN_MONTH_def)
  next
    case 11
    with assms(3,4) r have "m0 = m \<or> m0 = m + 1"
      by (auto simp: f_def DAYS_BEFORE_MONTH_def DAYS_IN_MONTH_def split: if_splits)
    moreover from 11 have "f = DAYS_BEFORE_MONTH ! 11 + (if m > 2 \<and> leap then 1 else 0) + d - 1"
      by (simp add: f_def)
    ultimately show ?thesis
      unfolding month_and_day_def Let_def m0_def [symmetric] using 11 assms(3,4) r
      by (auto simp: DAYS_BEFORE_MONTH_def DAYS_IN_MONTH_def)
  next
    case 12
    with assms(3,4) r have "m0 = m \<or> m0 = m + 1"
      by (auto simp: f_def DAYS_BEFORE_MONTH_def DAYS_IN_MONTH_def split: if_splits)
    moreover from 12 have "f = DAYS_BEFORE_MONTH ! 12 + (if m > 2 \<and> leap then 1 else 0) + d - 1"
      by (simp add: f_def)
    ultimately show ?thesis
      unfolding month_and_day_def Let_def m0_def [symmetric] using 12 assms(3,4) r
      by (auto simp: DAYS_BEFORE_MONTH_def DAYS_IN_MONTH_def)
  qed
  then show ?thesis by (simp add: f_def)
qed

lemma ord2ymd_split:
  assumes N: "N = 146097 * a + R1" and R1: "R1 = 36524 * b + R2"
    and R2: "R2 = 1461 * c + R3" and R3: "R3 = 365 * e + f"
    and b1: "0 \<le> R1" "R1 < 146097" and b2: "0 \<le> R2" "R2 < 36524"
    and b3: "0 \<le> R3" "R3 < 1461" and b4: "0 \<le> f" "f < 365"
  shows "ord2ymd (N + 1) =
     (if e = 4 \<or> b = 4 then \<lparr>year = 400 * a + 100 * b + 4 * c + e, month = 12, day = 31\<rparr>
      else case month_and_day (e = 3 \<and> (c \<noteq> 24 \<or> b = 3)) f of
        (m, d) \<Rightarrow> \<lparr>year = 400 * a + 100 * b + 4 * c + e + 1, month = m, day = d\<rparr>)"
proof -
  have d1: "N div 146097 = a" "N mod 146097 = R1"
    using N b1 by (auto intro: int_div_pos_eq int_mod_pos_eq)
  have d2: "R1 div 36524 = b" "R1 mod 36524 = R2"
    using R1 b2 by (auto intro: int_div_pos_eq int_mod_pos_eq)
  have d3: "R2 div 1461 = c" "R2 mod 1461 = R3"
    using R2 b3 by (auto intro: int_div_pos_eq int_mod_pos_eq)
  have d4: "R3 div 365 = e" "R3 mod 365 = f"
    using R3 b4 by (auto intro: int_div_pos_eq int_mod_pos_eq)
  show ?thesis
    unfolding ord2ymd_def DI_values
    by (simp add: d1 d2 d3 d4 Let_def month_and_day_def algebra_simps)
qed

lemma ord2ymd_cases:
  obtains (regular) a b c e f where
      "n = 146097 * a + 36524 * b + 1461 * c + 365 * e + f + 1"
      "0 \<le> b" "b < 4" "0 \<le> c" "c < 25" "0 \<le> e" "e < 4" "0 \<le> f" "f < 365"
      "ord2ymd n = (case month_and_day (e = 3 \<and> (c \<noteq> 24 \<or> b = 3)) f of
         (m, d) \<Rightarrow> \<lparr>year = 400 * a + 100 * b + 4 * c + e + 1, month = m, day = d\<rparr>)"
  | (last) a b c where
      "n = 146097 * a + 36524 * b + 1461 * c + 365 * 3 + 365 + 1"
      "0 \<le> b" "b < 4" "0 \<le> c" "c < 25" "c \<noteq> 24 \<or> b = 3"
      "ord2ymd n = \<lparr>year = 400 * a + 100 * b + 4 * c + 3 + 1, month = 12, day = 31\<rparr>"
proof -
  define N where "N = n - 1"
  define a where "a = N div 146097"
  define R1 where "R1 = N mod 146097"
  define b where "b = R1 div 36524"
  define R2 where "R2 = R1 mod 36524"
  define c where "c = R2 div 1461"
  define R3 where "R3 = R2 mod 1461"
  define e where "e = R3 div 365"
  define f where "f = R3 mod 365"
  have N: "N = 146097 * a + R1" by (simp add: a_def R1_def)
  have R1: "R1 = 36524 * b + R2" by (simp add: b_def R2_def)
  have R2: "R2 = 1461 * c + R3" by (simp add: c_def R3_def)
  have R3: "R3 = 365 * e + f" by (simp add: e_def f_def)
  have b1: "0 \<le> R1" "R1 < 146097" by (simp_all add: R1_def)
  have b2: "0 \<le> R2" "R2 < 36524" by (simp_all add: R2_def)
  have b3: "0 \<le> R3" "R3 < 1461" by (simp_all add: R3_def)
  have b4: "0 \<le> f" "f < 365" by (simp_all add: f_def)
  have rb: "0 \<le> b" "b \<le> 4" using b1 R1 b2 by auto
  have rc: "0 \<le> c" "c \<le> 24" using b2 R2 b3 by auto
  have re: "0 \<le> e" "e \<le> 4" using b3 R3 b4 by auto
  have eq: "ord2ymd (N + 1) =
     (if e = 4 \<or> b = 4 then \<lparr>year = 400 * a + 100 * b + 4 * c + e, month = 12, day = 31\<rparr>
      else case month_and_day (e = 3 \<and> (c \<noteq> 24 \<or> b = 3)) f of
        (m, d) \<Rightarrow> \<lparr>year = 400 * a + 100 * b + 4 * c + e + 1, month = m, day = d\<rparr>)"
    by (rule ord2ymd_split [OF N R1 R2 R3 b1 b2 b3 b4])
  have n: "n = N + 1" by (simp add: N_def)
  show thesis
  proof (cases "b = 4")
    case True
    then have "R2 = 0" using R1 b1 b2 by auto
    then have "c = 0" "e = 0" "f = 0" using R2 R3 b3 b4 rc re by auto
    show ?thesis
    proof (rule last [of a 3 24])
      show "n = 146097 * a + 36524 * 3 + 1461 * 24 + 365 * 3 + 365 + 1"
        using n N R1 \<open>R2 = 0\<close> True by simp
      show "ord2ymd n = \<lparr>year = 400 * a + 100 * 3 + 4 * 24 + 3 + 1, month = 12, day = 31\<rparr>"
        using eq True \<open>c = 0\<close> \<open>e = 0\<close> by (simp add: n)
    qed simp_all
  next
    case b: False
    show ?thesis
    proof (cases "e = 4")
      case True
      then have "f = 0" using R3 b3 b4 by auto
      have "c \<noteq> 24" using True R2 R3 b2 b4 by auto
      show ?thesis
      proof (rule last [of a b c])
        show "n = 146097 * a + 36524 * b + 1461 * c + 365 * 3 + 365 + 1"
          using n N R1 R2 R3 True \<open>f = 0\<close> by simp
        show "ord2ymd n = \<lparr>year = 400 * a + 100 * b + 4 * c + 3 + 1, month = 12, day = 31\<rparr>"
          using eq True by (simp add: n)
      qed (use b rb rc \<open>c \<noteq> 24\<close> in auto)
    next
      case False
      show ?thesis
      proof (rule regular [of a b c e f])
        show "n = 146097 * a + 36524 * b + 1461 * c + 365 * e + f + 1"
          using n N R1 R2 R3 by simp
        show "ord2ymd n = (case month_and_day (e = 3 \<and> (c \<noteq> 24 \<or> b = 3)) f of
         (m, d) \<Rightarrow> \<lparr>year = 400 * a + 100 * b + 4 * c + e + 1, month = m, day = d\<rparr>)"
          using eq b False by (simp add: n)
      qed (use b False rb rc re b4 in auto)
    qed
  qed
qed

lemma days_in_month_alt:
  "days_in_month y m = DAYS_IN_MONTH ! nat m + (if m = 2 \<and> is_leap y then 1 else 0)"
  by (simp add: days_in_month_def DAYS_IN_MONTH_def)

lemma ord2ymd_toordinal_aux:
  "toordinal (ord2ymd n) = n \<and> 1 \<le> month (ord2ymd n) \<and> month (ord2ymd n) \<le> 12
   \<and> 1 \<le> day (ord2ymd n)
   \<and> day (ord2ymd n) \<le> days_in_month (year (ord2ymd n)) (month (ord2ymd n))"
proof (cases n rule: ord2ymd_cases)
  case (regular a b c e f)
  let ?leap = "e = 3 \<and> (c \<noteq> 24 \<or> b = 3)"
  obtain m d where md: "month_and_day ?leap f = (m, d)" by force
  have p: "1 \<le> m \<and> m \<le> 12 \<and> 1 \<le> d
           \<and> d \<le> DAYS_IN_MONTH ! nat m + (if m = 2 \<and> ?leap then 1 else 0)
           \<and> DAYS_BEFORE_MONTH ! nat m + (if m > 2 \<and> ?leap then 1 else 0) + d = f + 1"
    using month_and_day_props [of f ?leap] regular(8,9) md by (simp split: if_splits)
  have leap: "is_leap (400 * a + 100 * b + 4 * c + e + 1) \<longleftrightarrow> ?leap"
    using regular by (intro is_leap_decomp) auto
  have dby: "days_before_year (400 * a + 100 * b + 4 * c + e + 1)
         = 146097 * a + 36524 * b + 1461 * c + 365 * e"
    using regular by (intro days_before_year_decomp) auto
  have o: "ord2ymd n = \<lparr>year = 400 * a + 100 * b + 4 * c + e + 1, month = m, day = d\<rparr>"
    using regular(10) md by simp
  show ?thesis
    unfolding o toordinal_def ymd2ord_def days_before_month_def days_in_month_alt
    using p by (simp add: leap dby regular(1))
next
  case (last a b c)
  have leap: "is_leap (400 * a + 100 * b + 4 * c + 3 + 1)"
    using is_leap_decomp [of b c 3 a] last by auto
  have dby: "days_before_year (400 * a + 100 * b + 4 * c + 3 + 1)
         = 146097 * a + 36524 * b + 1461 * c + 365 * 3"
    using last by (intro days_before_year_decomp) auto
  show ?thesis
    unfolding last(7) toordinal_def ymd2ord_def days_before_month_def days_in_month_alt
    using leap dby
    by (simp add: last(1) DAYS_BEFORE_MONTH_def DAYS_IN_MONTH_def)
qed

lemma ord2ymd_year_range:
  "1 \<le> year (ord2ymd n) \<and> year (ord2ymd n) \<le> 9999 \<longleftrightarrow> 1 \<le> n \<and> n \<le> 3652059"
proof (cases n rule: ord2ymd_cases)
  case (regular a b c e f)
  obtain m d where md: "month_and_day (e = 3 \<and> (c \<noteq> 24 \<or> b = 3)) f = (m, d)" by force
  have y: "year (ord2ymd n) = 400 * a + 100 * b + 4 * c + e + 1"
    using regular(10) md by simp
  have "a < 0 \<or> (0 \<le> a \<and> a \<le> 23) \<or> a = 24 \<or> 25 \<le> a" by arith
  then show ?thesis
    unfolding y using regular(1-9) by (elim disjE) arith+
next
  case (last a b c)
  have y: "year (ord2ymd n) = 400 * a + 100 * b + 4 * c + 3 + 1"
    using last(7) by simp
  have "a < 0 \<or> (0 \<le> a \<and> a \<le> 23) \<or> a = 24 \<or> 25 \<le> a" by arith
  then show ?thesis
    unfolding y using last(1-6) by (elim disjE) arith+
qed

lemma year_offset_bounds:
  assumes "1 \<le> m" "m \<le> 12" "1 \<le> d"
    "d \<le> DAYS_IN_MONTH ! nat m + (if m = 2 \<and> leap then 1 else 0)"
  shows "0 \<le> DAYS_BEFORE_MONTH ! nat m + (if m > 2 \<and> leap then 1 else 0) + d - 1
       \<and> DAYS_BEFORE_MONTH ! nat m + (if m > 2 \<and> leap then 1 else 0) + d - 1
           < 365 + (if leap then 1 else 0)"
  using assms(1,2)
  by (cases m rule: month_cases)
     (use assms(3,4) in \<open>auto simp: DAYS_BEFORE_MONTH_def DAYS_IN_MONTH_def\<close>)

lemma year_decomp:
  obtains a b c e where "y = 400 * a + 100 * b + 4 * c + e + 1"
    "0 \<le> b" "b < 4" "0 \<le> c" "c < 25" "0 \<le> e" "e < (4::int)"
proof -
  define a where "a = (y - 1) div 400"
  define r where "r = (y - 1) mod 400"
  define b where "b = r div 100"
  define s where "s = r mod 100"
  define c where "c = s div 4"
  define e where "e = s mod 4"
  have 1: "y - 1 = 400 * a + r" "0 \<le> r" "r < 400" by (simp_all add: a_def r_def)
  have 2: "r = 100 * b + s" "0 \<le> s" "s < 100" by (simp_all add: b_def s_def)
  have 3: "s = 4 * c + e" "0 \<le> e" "e < 4" by (simp_all add: c_def e_def)
  show thesis
    by (rule that [of a b c e]) (use 1 2 3 in auto)
qed

lemma toordinal_ord2ymd_aux:
  assumes "1 \<le> month d" "month d \<le> 12" "1 \<le> day d"
    "day d \<le> days_in_month (year d) (month d)"
  shows "ord2ymd (toordinal d) = d"
proof -
  obtain a b c e where y: "year d = 400 * a + 100 * b + 4 * c + e + 1"
    and bd: "0 \<le> b" "b < 4" "0 \<le> c" "c < 25" "0 \<le> e" "e < 4"
    by (rule year_decomp)
  define L where "L \<longleftrightarrow> e = 3 \<and> (c \<noteq> 24 \<or> b = 3)"
  define f where
    "f = DAYS_BEFORE_MONTH ! nat (month d) + (if month d > 2 \<and> L then 1 else 0) + day d - 1"
  have leap: "is_leap (year d) \<longleftrightarrow> L"
    unfolding y L_def using bd by (intro is_leap_decomp) auto
  have dby: "days_before_year (year d) = 146097 * a + 36524 * b + 1461 * c + 365 * e"
    unfolding y using bd by (intro days_before_year_decomp) auto
  have dim: "day d \<le> DAYS_IN_MONTH ! nat (month d) + (if month d = 2 \<and> L then 1 else 0)"
    using assms(4) by (simp add: days_in_month_alt leap)
  have inv: "month_and_day L f = (month d, day d)"
    unfolding f_def by (rule month_and_day_inverse [OF assms(1,2,3) dim])
  have fb: "0 \<le> f" "f < 365 + (if L then 1 else 0)"
    using year_offset_bounds [OF assms(1,2,3) dim] by (simp_all add: f_def)
  have ord: "toordinal d = 146097 * a + 36524 * b + 1461 * c + 365 * e + f + 1"
    by (simp add: toordinal_def ymd2ord_def days_before_month_def dby leap f_def)
  show ?thesis
  proof (cases "f < 365")
    case True
    have "ord2ymd ((146097 * a + 36524 * b + 1461 * c + 365 * e + f) + 1) =
      (if e = 4 \<or> b = 4 then \<lparr>year = 400 * a + 100 * b + 4 * c + e, month = 12, day = 31\<rparr>
       else case month_and_day (e = 3 \<and> (c \<noteq> 24 \<or> b = 3)) f of
        (m, d) \<Rightarrow> \<lparr>year = 400 * a + 100 * b + 4 * c + e + 1, month = m, day = d\<rparr>)"
      by (rule ord2ymd_split [where ?R1.0 = "36524 * b + 1461 * c + 365 * e + f"
            and ?R2.0 = "1461 * c + 365 * e + f" and ?R3.0 = "365 * e + f"])
         (use bd fb True in auto)
    then show ?thesis
      using bd inv by (simp add: ord L_def y [symmetric])
  next
    case False
    then have f: "f = 365" and L: "L" using fb by (auto split: if_splits)
    have "month_and_day True 365 = (12, 31)"
      by (simp add: month_and_day_def DAYS_BEFORE_MONTH_def DAYS_IN_MONTH_def)
    with inv f L have md: "month d = 12" "day d = 31" by auto
    from L have e: "e = 3" by (simp add: L_def)
    show ?thesis
    proof (cases "c = 24")
      case True
      with L have b: "b = 3" by (simp add: L_def)
      have "ord2ymd ((146097 * a + 146096) + 1) =
        (if (0::int) = 4 \<or> (4::int) = 4 then \<lparr>year = 400 * a + 100 * 4 + 4 * 0 + 0, month = 12, day = 31\<rparr>
         else case month_and_day ((0::int) = 3 \<and> ((0::int) \<noteq> 24 \<or> (4::int) = 3)) 0 of
          (m, d) \<Rightarrow> \<lparr>year = 400 * a + 100 * 4 + 4 * 0 + 0 + 1, month = m, day = d\<rparr>)"
        by (rule ord2ymd_split [where ?R1.0 = 146096 and ?R2.0 = 0 and ?R3.0 = 0]) auto
      then have "ord2ymd (toordinal d) = \<lparr>year = year d, month = 12, day = 31\<rparr>"
        by (simp add: ord y e b True f)
      then show ?thesis using md by simp
    next
      case False
      have "ord2ymd ((146097 * a + 36524 * b + 1461 * c + 1460) + 1) =
        (if (4::int) = 4 \<or> b = 4 then \<lparr>year = 400 * a + 100 * b + 4 * c + 4, month = 12, day = 31\<rparr>
         else case month_and_day ((4::int) = 3 \<and> (c \<noteq> 24 \<or> b = 3)) 0 of
          (m, d) \<Rightarrow> \<lparr>year = 400 * a + 100 * b + 4 * c + 4 + 1, month = m, day = d\<rparr>)"
        by (rule ord2ymd_split [where ?R1.0 = "36524 * b + 1461 * c + 1460"
              and ?R2.0 = "1461 * c + 1460" and ?R3.0 = 1460])
           (use bd False in auto)
      then have "ord2ymd (toordinal d) = \<lparr>year = year d, month = 12, day = 31\<rparr>"
        by (simp add: ord y e f)
      then show ?thesis using md by simp
    qed
  qed
qed

subsection \<open>Formatting and parsing\<close>

lemma digit_props:
  assumes "0 \<le> k" "k \<le> 9"
  shows "is_digit (digit k)" "digit_value (digit k) = k"
  using assms by (simp_all add: is_digit_def digit_value_def digit_def)

lemma number2: "number [a, b] = 10 * digit_value a + digit_value b"
  by (simp add: number_def)

lemma number4:
  "number [a, b, c, d] =
     1000 * digit_value a + 100 * digit_value b + 10 * digit_value c + digit_value d"
  by (simp add: number_def)

lemma zero_pad2_parse:
  assumes "0 \<le> n" "n \<le> 99"
  shows "list_all is_digit (zero_pad2 n)" "number (zero_pad2 n) = n"
proof -
  have a: "0 \<le> n div 10 mod 10" "n div 10 mod 10 \<le> 9" "0 \<le> n mod 10" "n mod 10 \<le> 9"
    by simp_all
  have "n div 10 mod 10 = n div 10" using assms by simp
  then have e: "10 * (n div 10 mod 10) + n mod 10 = n" by simp
  show "list_all is_digit (zero_pad2 n)"
    using a by (simp add: zero_pad2_def digit_props)
  show "number (zero_pad2 n) = n"
    using a e by (simp only: zero_pad2_def number2 digit_props)
qed

lemma mod10_bounds: "0 \<le> (x::int) mod 10" "x mod 10 \<le> 9"
proof -
  show "0 \<le> x mod 10" by simp
  have "x mod 10 < 10" by simp
  then show "x mod 10 \<le> 9" by linarith
qed

lemma number_snoc: "number (cs @ [c]) = 10 * number cs + digit_value c"
  by (simp add: number_def)

lemma digit_of_nat:
  assumes "n < 10"
  shows "is_digit (digit (int n))" "digit_value (digit (int n)) = int n"
  using assms by (simp_all add: digit_props)

lemma str_nat_digits: "list_all is_digit (str_nat n)"
proof (induction n rule: str_nat.induct)
  case (1 n)
  show ?case
  proof (cases "n < 10")
    case True
    then show ?thesis by (subst str_nat.simps) (simp add: digit_of_nat)
  next
    case False
    have "n mod 10 < 10" by simp
    then have "is_digit (digit (int (n mod 10)))" by (rule digit_of_nat)
    then show ?thesis
      using False "1.IH" by (subst str_nat.simps) simp
  qed
qed

lemma number_str_nat: "number (str_nat n) = int n"
proof (induction n rule: str_nat.induct)
  case (1 n)
  show ?case
  proof (cases "n < 10")
    case True
    then show ?thesis
      by (subst str_nat.simps) (simp add: number_def digit_of_nat)
  next
    case False
    have "n mod 10 < 10" by simp
    then have d: "digit_value (digit (int (n mod 10))) = int (n mod 10)" by (rule digit_of_nat)
    have "int n = 10 * int (n div 10) + int (n mod 10)"
      by (simp add: zdiv_int zmod_int)
    then show ?thesis
      using False "1.IH" by (subst str_nat.simps) (simp add: number_snoc d)
  qed
qed

lemma str_nat_inject:
  assumes "str_nat m = str_nat n"
  shows "m = n"
proof -
  have "int m = number (str_nat m)" by (simp only: number_str_nat)
  also have "\<dots> = number (str_nat n)" by (simp only: assms)
  also have "\<dots> = int n" by (rule number_str_nat)
  finally show ?thesis by simp
qed

lemma str_nat_four:
  assumes "1000 \<le> n" "n \<le> 9999"
  shows "\<exists>y1 y2 y3 y4. str_nat n = [y1, y2, y3, y4]"
proof -
  have a: "\<not> n < 10" "\<not> n div 10 < 10" "\<not> n div 10 div 10 < 10" "n div 10 div 10 div 10 < 10"
    using assms by simp_all
  have 1: "str_nat n = str_nat (n div 10) @ [digit (int (n mod 10))]"
    using a(1) by (subst str_nat.simps) simp
  have 2: "str_nat (n div 10) = str_nat (n div 10 div 10) @ [digit (int (n div 10 mod 10))]"
    using a(2) by (subst str_nat.simps) simp
  have 3: "str_nat (n div 10 div 10)
      = str_nat (n div 10 div 10 div 10) @ [digit (int (n div 10 div 10 mod 10))]"
    using a(3) by (subst str_nat.simps) simp
  have 4: "str_nat (n div 10 div 10 div 10) = [digit (int (n div 10 div 10 div 10))]"
    using a(4) by (subst str_nat.simps) simp
  show ?thesis unfolding 1 2 3 4 by simp
qed

lemma str_nat_short:
  assumes "n < 1000"
  shows "length (str_nat n) < 4"
proof -
  have a: "n div 10 div 10 < 10" using assms by simp
  have 3: "length (str_nat (n div 10 div 10)) = 1"
    using a by (subst str_nat.simps) simp
  have 2: "length (str_nat (n div 10)) \<le> 2"
    using 3 by (subst str_nat.simps) simp
  show ?thesis
    using 2 by (subst str_nat.simps) simp
qed

lemma digit_not_dash: "is_digit c \<Longrightarrow> c \<noteq> CHR ''-''"
  by (auto simp: is_digit_def)

lemma dash_not_in_str_nat: "CHR ''-'' \<notin> set (str_nat n)"
  using str_nat_digits [of n] digit_not_dash by (auto simp: list_all_iff)

lemma days_in_month_le: "1 \<le> m \<Longrightarrow> m \<le> 12 \<Longrightarrow> days_in_month y m \<le> 31"
proof -
  assume "1 \<le> m" "m \<le> 12"
  then have "m = 1 \<or> m = 2 \<or> m = 3 \<or> m = 4 \<or> m = 5 \<or> m = 6
      \<or> m = 7 \<or> m = 8 \<or> m = 9 \<or> m = 10 \<or> m = 11 \<or> m = 12" by arith
  then show ?thesis
    by (auto simp: days_in_month_def DAYS_IN_MONTH_def)
qed

lemma valid_date_fields:
  assumes "valid_date d"
  shows "1 \<le> year d" "year d \<le> 9999" "0 \<le> month d" "month d \<le> 99"
    "0 \<le> day d" "day d \<le> 99"
  using assms days_in_month_le [of "month d" "year d"]
  by (auto simp: valid_date_def MINYEAR_def MAXYEAR_def)

lemma strptime_response_layout:
  assumes "list_all is_digit [y1, y2, y3, y4]" "list_all is_digit [m1, m2]"
    "list_all is_digit [d1, d2]"
  shows "strptime_response ([y1, y2, y3, y4] @ ''-'' @ [m1, m2] @ ''-'' @ [d1, d2] @ ''T00:00:00Z'')
    = (let d = \<lparr>year = number [y1, y2, y3, y4], month = number [m1, m2], day = number [d1, d2]\<rparr>
       in if valid_date d then Some d else None)"
  using assms by (simp add: strptime_response_def)

lemma strptime_format:
  assumes "valid_date d" "1000 \<le> year d"
  shows "strptime_response (format_date d ISO_DATE_FORMAT_RESPONSE) = Some d"
proof -
  note f = valid_date_fields [OF assms(1)]
  have yn: "1000 \<le> nat (year d)" "nat (year d) \<le> 9999"
    using assms(2) f(2) by simp_all
  have si: "str_int (year d) = str_nat (nat (year d))"
    using f(1) by (simp add: str_int_def)
  obtain y1 y2 y3 y4 where Y: "str_nat (nat (year d)) = [y1, y2, y3, y4]"
    using str_nat_four [OF yn] by blast
  obtain m1 m2 where M: "zero_pad2 (month d) = [m1, m2]"
    by (simp add: zero_pad2_def)
  obtain d1 d2 where D: "zero_pad2 (day d) = [d1, d2]"
    by (simp add: zero_pad2_def)
  have ny: "number (str_nat (nat (year d))) = year d"
    using f(1) by (simp add: number_str_nat)
  have p: "list_all is_digit [y1, y2, y3, y4]" "number [y1, y2, y3, y4] = year d"
    "list_all is_digit [m1, m2]" "number [m1, m2] = month d"
    "list_all is_digit [d1, d2]" "number [d1, d2] = day d"
    using str_nat_digits [of "nat (year d)"] ny
      zero_pad2_parse [OF f(3,4)] zero_pad2_parse [OF f(5,6)]
    by (simp_all only: Y M D)
  have r: "\<lparr>year = year d, month = month d, day = day d\<rparr> = d" by simp
  have "format_date d ISO_DATE_FORMAT_RESPONSE
      = [y1, y2, y3, y4] @ ''-'' @ [m1, m2] @ ''-'' @ [d1, d2] @ ''T00:00:00Z''"
    by (simp add: strftime_ymd_def si Y M D)
  then show ?thesis
    using assms(1) by (simp only: strptime_response_layout [OF p(1,3,5)] p r Let_def if_True)
qed

lemma strptime_format_short_year:
  assumes "valid_date d" "year d < 1000"
  shows "strptime_response (format_date d ISO_DATE_FORMAT_RESPONSE) = None"
proof -
  note f = valid_date_fields [OF assms(1)]
  have "nat (year d) < 1000" using assms(2) by simp
  then have "length (str_nat (nat (year d))) < 4" by (rule str_nat_short)
  moreover have "str_int (year d) = str_nat (nat (year d))"
    using f(1) by (simp add: str_int_def)
  ultimately have "length (format_date d ISO_DATE_FORMAT_RESPONSE) \<noteq> 20"
    by (simp add: strftime_ymd_def zero_pad2_def)
  then show ?thesis by (simp only: strptime_response_def if_False simp_thms)
qed

lemma split_at_first:
  assumes "c \<notin> set xs" "c \<notin> set ys" "xs @ c # r = ys @ c # t"
  shows "xs = ys \<and> r = t"
proof -
  have "takeWhile (\<lambda>x. x \<noteq> c) (xs @ c # r) = xs"
    using assms(1) by (subst takeWhile_append2) auto
  moreover have "takeWhile (\<lambda>x. x \<noteq> c) (ys @ c # t) = ys"
    using assms(2) by (subst takeWhile_append2) auto
  ultimately have "xs = ys" using assms(3) by simp
  with assms(3) show ?thesis by simp
qed

lemma strftime_ymd_inject:
  assumes "valid_date a" "valid_date b" "strftime_ymd a = strftime_ymd b"
  shows "a = b"
proof -
  note fa = valid_date_fields [OF assms(1)] and fb = valid_date_fields [OF assms(2)]
  let ?ya = "str_nat (nat (year a))" and ?yb = "str_nat (nat (year b))"
  let ?ra = "zero_pad2 (month a) @ ''-'' @ zero_pad2 (day a)"
  let ?rb = "zero_pad2 (month b) @ ''-'' @ zero_pad2 (day b)"
  have "?ya @ CHR ''-'' # ?ra = ?yb @ CHR ''-'' # ?rb"
    using assms(3) fa(1) fb(1) by (simp add: strftime_ymd_def str_int_def)
  then have "?ya = ?yb \<and> ?ra = ?rb"
    by (rule split_at_first [OF dash_not_in_str_nat dash_not_in_str_nat])
  then have e: "?ya = ?yb" "?ra = ?rb" by blast+
  from e(1) have "nat (year a) = nat (year b)" by (rule str_nat_inject)
  then have y: "year a = year b" using fa(1) fb(1) by simp
  from e(2) have "zero_pad2 (month a) = zero_pad2 (month b)" "zero_pad2 (day a) = zero_pad2 (day b)"
    by (simp_all add: zero_pad2_def)
  then have "number (zero_pad2 (month a)) = number (zero_pad2 (month b))"
    "number (zero_pad2 (day a)) = number (zero_pad2 (day b))"
    by simp_all
  then have "month a = month b" "day a = day b"
    using zero_pad2_parse(2) [OF fa(3,4)] zero_pad2_parse(2) [OF fb(3,4)]
      zero_pad2_parse(2) [OF fa(5,6)] zero_pad2_parse(2) [OF fb(5,6)]
    by simp_all
  with y show ?thesis by simp
qed

subsection \<open>Dates and ordinals\<close>

lemma valid_date_ord2ymd:
  "valid_date (ord2ymd n) \<longleftrightarrow> 1 \<le> n \<and> n \<le> MAXORDINAL"
  using ord2ymd_toordinal_aux [of n] ord2ymd_year_range [of n]
  by (auto simp: valid_date_def MINYEAR_def MAXYEAR_def MAXORDINAL_def)

lemma toordinal_ord2ymd: "valid_date d \<Longrightarrow> ord2ymd (toordinal d) = d"
  by (rule toordinal_ord2ymd_aux) (simp_all add: valid_date_def)

lemma toordinal_range:
  assumes "valid_date d"
  shows "1 \<le> toordinal d" "toordinal d \<le> MAXORDINAL"
  using valid_date_ord2ymd [of "toordinal d"] toordinal_ord2ymd [OF assms] assms by simp_all

lemma fromordinal_toordinal: "valid_date d \<Longrightarrow> fromordinal (toordinal d) = Some d"
  using toordinal_range [of d] by (simp add: fromordinal_def toordinal_ord2ymd)

lemma fromordinal_in_range:
  assumes "1 \<le> n" "n \<le> MAXORDINAL"
  shows "fromordinal n = Some (ord2ymd n)" "valid_date (ord2ymd n)" "toordinal (ord2ymd n) = n"
  using assms valid_date_ord2ymd [of n] ord2ymd_toordinal_aux [of n]
  by (simp_all add: fromordinal_def)

lemma fromordinal_Some:
  "fromordinal n = Some d \<Longrightarrow> valid_date d \<and> toordinal d = n"
  using ord2ymd_toordinal_aux [of n]
  by (auto simp: fromordinal_def Let_def split: if_splits)

lemma toordinal_inject:
  "valid_date a \<Longrightarrow> valid_date b \<Longrightarrow> toordinal a = toordinal b \<Longrightarrow> a = b"
  using toordinal_ord2ymd by metis

lemma format_response_inject:
  assumes "valid_date a" "valid_date b"
    "format_date a ISO_DATE_FORMAT_RESPONSE = format_date b ISO_DATE_FORMAT_RESPONSE"
  shows "a = b"
proof -
  have "strftime_ymd a = strftime_ymd b" using assms(3) by simp
  with assms(1,2) show ?thesis by (rule strftime_ymd_inject)
qed

text \<open>
  C8, as stated, fails.  The date 0999-06-07 is written \<open>999-06-07T00:00:00Z\<close>, which
  the parser refuses for its three-digit year, so the path of the run reporter ends in an
  error and not in the date.
\<close>

theorem date_round_trip_counterexample:
  "valid_date \<lparr>year = 999, month = 6, day = 7\<rparr>
   \<and> format_date \<lparr>year = 999, month = 6, day = 7\<rparr> ISO_DATE_FORMAT_RESPONSE
       = ''999-06-07T00:00:00Z''
   \<and> strptime_response (format_date \<lparr>year = 999, month = 6, day = 7\<rparr> ISO_DATE_FORMAT_RESPONSE)
       \<noteq> Some \<lparr>year = 999, month = 6, day = 7\<rparr>
   \<and> report_date (format_date \<lparr>year = 999, month = 6, day = 7\<rparr> ISO_DATE_FORMAT_RESPONSE)
       = None"
  by code_simp

text \<open>
  C8, amended.  For every date the library can hold, the ordinal of the date converts back
  to the same date.  For every such date from the year 1000 on, parsing its
  response-format string gives the date back, and the whole path of the run reporter
  (parse, to ordinal, from ordinal, format) ends in the input-format string of that same
  date.
\<close>

theorem date_round_trip:
  assumes "valid_date d"
  shows "fromordinal (toordinal d) = Some d
       \<and> (1000 \<le> year d \<longrightarrow>
            strptime_response (format_date d ISO_DATE_FORMAT_RESPONSE) = Some d
            \<and> report_date (format_date d ISO_DATE_FORMAT_RESPONSE)
                = Some (format_date d INPUT_DATE_FORMAT))"
  using strptime_format [OF assms] fromordinal_toordinal [OF assms]
  by (simp add: report_date_def del: format_date.simps)

theorem date_round_trip_witness:
  "valid_date \<lparr>year = 2024, month = 2, day = 29\<rparr>
   \<and> strptime_response ''2024-02-29T00:00:00Z'' = Some \<lparr>year = 2024, month = 2, day = 29\<rparr>
   \<and> toordinal \<lparr>year = 2024, month = 2, day = 29\<rparr> = 738945
   \<and> fromordinal 738945 = Some \<lparr>year = 2024, month = 2, day = 29\<rparr>
   \<and> report_date ''2024-02-29T00:00:00Z'' = Some ''2024-02-29''"
proof -
  have v: "valid_date \<lparr>year = 2024, month = 2, day = 29\<rparr>"
    by code_simp
  have f: "format_date \<lparr>year = 2024, month = 2, day = 29\<rparr> ISO_DATE_FORMAT_RESPONSE
      = ''2024-02-29T00:00:00Z''"
    by code_simp
  have g: "format_date \<lparr>year = 2024, month = 2, day = 29\<rparr> INPUT_DATE_FORMAT = ''2024-02-29''"
    by code_simp
  have t: "toordinal \<lparr>year = 2024, month = 2, day = 29\<rparr> = 738945"
    by code_simp
  show ?thesis
    using date_round_trip [OF v] v by (simp add: f g t del: format_date.simps)
qed

section \<open>Grouped-file mode: the exit code\<close>

lemma grouped_loop_count:
  "grouped_loop outcomes code
     = code + int (length (filter (\<lambda>out. out = Returns False) outcomes))"
  by (induction outcomes code rule: grouped_loop.induct) auto

text \<open>
  C5, as stated, fails: a group whose processing raises leaves the counter as it is, so
  one raising group gives exit code 0 where the claim counts one failure.
\<close>

theorem grouped_exit_code_counterexample:
  "grouped_exit_code [Raises] \<noteq> spec_failures [Raises]"
  by (simp add: grouped_exit_code_def spec_failures_def)

text \<open>
  C5, amended.  The value handed to \<open>sys.exit\<close> is the number of groups whose processing
  returned without availability.  A group whose processing raises is caught and the loop
  goes on with the remaining groups; it adds nothing to the count.
\<close>

theorem grouped_exit_code_counts_no_availability:
  "grouped_exit_code outcomes = int (length (filter (\<lambda>out. out = Returns False) outcomes))
   \<and> grouped_exit_code (before @ Raises # after) = grouped_exit_code (before @ after)"
  by (simp add: grouped_exit_code_def grouped_loop_count)

section \<open>Normalizer: what reaches the output\<close>

lemma available_loop_filter:
  "available_loop ctype declared avs available
     = available @ map fst (filter (\<lambda>(date, v). v = ''Available''
                                      \<and> \<not> (truthy ctype \<and> ctype \<noteq> Some declared)) avs)"
  by (induction ctype declared avs available rule: available_loop.induct) auto

lemma data_ok_setdefault_extend:
  assumes "data_ok P data" "available \<noteq> []" "\<forall>date \<in> set available. P site date"
  shows "data_ok P (setdefault_extend data site available)"
  using assms
  by (induction data site available rule: setdefault_extend.induct)
     (auto simp: data_ok_def)

lemma data_ok_campsites_loop:
  assumes "data_ok P data"
    "\<And>site campsite_data date. (site, campsite_data) \<in> set month_data
       \<Longrightarrow> (date, ''Available'') \<in> set (availabilities campsite_data)
       \<Longrightarrow> (truthy ctype \<longrightarrow> ctype = Some (campsite_type campsite_data))
       \<Longrightarrow> P site date"
  shows "data_ok P (campsites_loop ctype month_data data)"
  using assms
proof (induction month_data arbitrary: data)
  case Nil
  then show ?case by simp
next
  case (Cons entry rest)
  obtain campsite_id campsite_data where e: "entry = (campsite_id, campsite_data)"
    by (cases entry)
  let ?available = "available_loop ctype (campsite_type campsite_data)
                        (availabilities campsite_data) []"
  have rest: "\<And>site campsite_data date. (site, campsite_data) \<in> set rest
       \<Longrightarrow> (date, ''Available'') \<in> set (availabilities campsite_data)
       \<Longrightarrow> (truthy ctype \<longrightarrow> ctype = Some (campsite_type campsite_data))
       \<Longrightarrow> P site date"
  proof -
    fix site cd date
    assume a: "(site, cd) \<in> set rest" "(date, ''Available'') \<in> set (availabilities cd)"
      "truthy ctype \<longrightarrow> ctype = Some (campsite_type cd)"
    from a(1) have "(site, cd) \<in> set (entry # rest)" by simp
    then show "P site date" using a(2,3) by (rule Cons.prems(2))
  qed
  have P: "\<forall>date \<in> set ?available. P campsite_id date"
    using Cons.prems(2) [of campsite_id campsite_data]
    by (auto simp: available_loop_filter e)
  show ?case
  proof (cases "?available = []")
    case True
    have "data_ok P (campsites_loop ctype rest data)"
      using Cons.prems(1) rest by (rule Cons.IH)
    then show ?thesis using True by (simp add: e)
  next
    case False
    have "data_ok P (setdefault_extend data campsite_id ?available)"
      using Cons.prems(1) False P by (rule data_ok_setdefault_extend)
    then have "data_ok P (campsites_loop ctype rest (setdefault_extend data campsite_id ?available))"
      using rest by (rule Cons.IH)
    then show ?thesis using False by (simp add: e Let_def)
  qed
qed

lemma data_ok_months_loop:
  assumes "data_ok P data"
    "\<And>month_data site campsite_data date. month_data \<in> set api_data
       \<Longrightarrow> (site, campsite_data) \<in> set month_data
       \<Longrightarrow> (date, ''Available'') \<in> set (availabilities campsite_data)
       \<Longrightarrow> (truthy ctype \<longrightarrow> ctype = Some (campsite_type campsite_data))
       \<Longrightarrow> P site date"
  shows "data_ok P (months_loop ctype api_data data)"
  using assms
proof (induction api_data arbitrary: data)
  case Nil
  then show ?case by simp
next
  case (Cons month_data api_data)
  have "data_ok P (campsites_loop ctype month_data data)"
    using Cons.prems(1)
  proof (rule data_ok_campsites_loop)
    fix site campsite_data date
    assume "(site, campsite_data) \<in> set month_data"
      "(date, ''Available'') \<in> set (availabilities campsite_data)"
      "truthy ctype \<longrightarrow> ctype = Some (campsite_type campsite_data)"
    then show "P site date"
      using Cons.prems(2) [of month_data site campsite_data date] by simp
  qed
  then have "data_ok P (months_loop ctype api_data (campsites_loop ctype month_data data))"
  proof (rule Cons.IH)
    fix md site campsite_data date
    assume "md \<in> set api_data" "(site, campsite_data) \<in> set md"
      "(date, ''Available'') \<in> set (availabilities campsite_data)"
      "truthy ctype \<longrightarrow> ctype = Some (campsite_type campsite_data)"
    then show "P site date"
      using Cons.prems(2) [of md site campsite_data date] by simp
  qed
  then show ?case by simp
qed

text \<open>
  C6.  Whatever the month payloads are, a site of the output has a non-empty list, and
  every date of that list is listed for the site in some payload with status
  \<open>Available\<close> and, when the filter is a non-empty string, under exactly that declared
  type.  So a site for which no date survives is not in the output.
\<close>

theorem normalizer_filtering:
  assumes "(site, ds) \<in> set (months_loop ctype api_data [])"
  shows "ds \<noteq> [] \<and> (\<forall>date \<in> set ds. survives ctype api_data site date)
       \<and> (\<exists>date. survives ctype api_data site date)"
proof -
  have "data_ok (survives ctype api_data) (months_loop ctype api_data [])"
    by (rule data_ok_months_loop) (auto simp: data_ok_def survives_def)
  then have a: "ds \<noteq> []" "\<forall>date \<in> set ds. survives ctype api_data site date"
    using assms by (auto simp: data_ok_def)
  then obtain date where "date \<in> set ds" by (cases ds) auto
  with a show ?thesis by blast
qed

theorem normalizer_filtering_witness:
  "(''7'', [''2024-06-07T00:00:00Z''])
     \<in> set (months_loop (Some ''STANDARD NONELECTRIC'')
         [[(''7'', \<lparr>campsite_type = ''STANDARD NONELECTRIC'',
                    availabilities = [(''2024-06-07T00:00:00Z'', ''Available''),
                                      (''2024-06-08T00:00:00Z'', ''Reserved'')]\<rparr>),
           (''8'', \<lparr>campsite_type = ''RV'',
                    availabilities = [(''2024-06-07T00:00:00Z'', ''Available'')]\<rparr>)]] [])
   \<and> survives (Some ''STANDARD NONELECTRIC'')
         [[(''7'', \<lparr>campsite_type = ''STANDARD NONELECTRIC'',
                    availabilities = [(''2024-06-07T00:00:00Z'', ''Available''),
                                      (''2024-06-08T00:00:00Z'', ''Reserved'')]\<rparr>),
           (''8'', \<lparr>campsite_type = ''RV'',
                    availabilities = [(''2024-06-07T00:00:00Z'', ''Available'')]\<rparr>)]]
         ''7'' ''2024-06-07T00:00:00Z''"
proof -
  let ?api = "[[(''7'', \<lparr>campsite_type = ''STANDARD NONELECTRIC'',
                    availabilities = [(''2024-06-07T00:00:00Z'', ''Available''),
                                      (''2024-06-08T00:00:00Z'', ''Reserved'')]\<rparr>),
           (''8'', \<lparr>campsite_type = ''RV'',
                    availabilities = [(''2024-06-07T00:00:00Z'', ''Available'')]\<rparr>)]]"
  have m: "months_loop (Some ''STANDARD NONELECTRIC'') ?api []
             = [(''7'', [''2024-06-07T00:00:00Z''])]"
    by (simp add: truthy_def)
  then have i: "(''7'', [''2024-06-07T00:00:00Z''])
     \<in> set (months_loop (Some ''STANDARD NONELECTRIC'') ?api [])"
    by simp
  show ?thesis
    using normalizer_filtering [OF i] i by simp
qed

lemma campsites_loop_cong:
  assumes "\<And>declared avs. available_loop c1 declared avs [] = available_loop c2 declared avs []"
  shows "campsites_loop c1 month_data data = campsites_loop c2 month_data data"
  by (induction month_data arbitrary: data) (auto simp: assms Let_def)

lemma months_loop_cong:
  assumes "\<And>declared avs. available_loop c1 declared avs [] = available_loop c2 declared avs []"
  shows "months_loop c1 api_data data = months_loop c2 api_data data"
  by (induction api_data arbitrary: data) (simp_all add: campsites_loop_cong [OF assms])

lemma in_available_loop:
  "date \<in> set (available_loop ctype declared avs [])
     \<longleftrightarrow> (date, ''Available'') \<in> set avs \<and> \<not> (truthy ctype \<and> ctype \<noteq> Some declared)"
  by (force simp: available_loop_filter)

lemma listed_Nil: "\<not> listed [] site date"
  by (simp add: listed_def)

lemma listed_setdefault_extend:
  "listed (setdefault_extend data k vs) site date
     \<longleftrightarrow> listed data site date \<or> (site = k \<and> date \<in> set vs)"
  by (induction data k vs rule: setdefault_extend.induct) (auto simp: listed_def)

lemma keys_setdefault_extend:
  "map fst (setdefault_extend data k vs)
     = (if k \<in> fst ` set data then map fst data else map fst data @ [k])"
  by (induction data k vs rule: setdefault_extend.induct) auto

lemma distinct_setdefault_extend:
  "distinct (map fst data) \<Longrightarrow> distinct (map fst (setdefault_extend data k vs))"
  by (simp add: keys_setdefault_extend)

lemma listed_campsites_loop:
  "listed (campsites_loop ctype month_data data) site date
     \<longleftrightarrow> listed data site date
         \<or> (\<exists>campsite_data. (site, campsite_data) \<in> set month_data
               \<and> date \<in> set (available_loop ctype (campsite_type campsite_data)
                                 (availabilities campsite_data) []))"
proof (induction month_data arbitrary: data)
  case Nil
  then show ?case by simp
next
  case (Cons entry rest)
  obtain campsite_id campsite_data where e: "entry = (campsite_id, campsite_data)"
    by (cases entry)
  let ?available = "available_loop ctype (campsite_type campsite_data)
                        (availabilities campsite_data) []"
  let ?R = "\<lambda>md. \<exists>cd. (site, cd) \<in> set md
               \<and> date \<in> set (available_loop ctype (campsite_type cd) (availabilities cd) [])"
  show ?case
  proof (cases "?available = []")
    case True
    then have step: "campsites_loop ctype (entry # rest) data = campsites_loop ctype rest data"
      by (simp add: e)
    have "listed (campsites_loop ctype (entry # rest) data) site date
        \<longleftrightarrow> listed (campsites_loop ctype rest data) site date"
      by (simp only: step)
    also have "\<dots> \<longleftrightarrow> listed data site date \<or> ?R rest"
      by (rule Cons.IH)
    also have "\<dots> \<longleftrightarrow> listed data site date \<or> ?R (entry # rest)"
      using True by (auto simp: e)
    finally show ?thesis .
  next
    case False
    then have step: "campsites_loop ctype (entry # rest) data
        = campsites_loop ctype rest (setdefault_extend data campsite_id ?available)"
      by (simp add: e Let_def)
    have "listed (campsites_loop ctype (entry # rest) data) site date
        \<longleftrightarrow> listed (campsites_loop ctype rest
              (setdefault_extend data campsite_id ?available)) site date"
      by (simp only: step)
    also have "\<dots> \<longleftrightarrow> listed (setdefault_extend data campsite_id ?available) site date
        \<or> ?R rest"
      by (rule Cons.IH)
    also have "\<dots> \<longleftrightarrow> listed data site date \<or> ?R (entry # rest)"
      unfolding listed_setdefault_extend by (auto simp: e)
    finally show ?thesis .
  qed
qed

lemma distinct_campsites_loop:
  "distinct (map fst data) \<Longrightarrow> distinct (map fst (campsites_loop ctype month_data data))"
  by (induction month_data arbitrary: data)
     (auto simp: Let_def distinct_setdefault_extend simp del: setdefault_extend.simps)

lemma listed_months_loop:
  "listed (months_loop ctype api_data data) site date
     \<longleftrightarrow> listed data site date
         \<or> (\<exists>month_data \<in> set api_data. \<exists>campsite_data.
               (site, campsite_data) \<in> set month_data
               \<and> date \<in> set (available_loop ctype (campsite_type campsite_data)
                                 (availabilities campsite_data) []))"
proof (induction api_data arbitrary: data)
  case Nil
  then show ?case by simp
next
  case (Cons month_data api_data)
  have "listed (months_loop ctype (month_data # api_data) data) site date
      \<longleftrightarrow> listed (months_loop ctype api_data (campsites_loop ctype month_data data)) site date"
    by simp
  also have "\<dots> \<longleftrightarrow> listed (campsites_loop ctype month_data data) site date
         \<or> (\<exists>month_data \<in> set api_data. \<exists>campsite_data.
               (site, campsite_data) \<in> set month_data
               \<and> date \<in> set (available_loop ctype (campsite_type campsite_data)
                                 (availabilities campsite_data) []))"
    by (rule Cons.IH)
  finally show ?case
    unfolding listed_campsites_loop by auto
qed

lemma distinct_months_loop:
  "distinct (map fst data) \<Longrightarrow> distinct (map fst (months_loop ctype api_data data))"
  by (induction api_data arbitrary: data) (simp_all add: distinct_campsites_loop)

lemma listed_output:
  "listed (months_loop ctype api_data []) site date
     \<longleftrightarrow> (\<exists>month_data \<in> set api_data. \<exists>campsite_data.
            (site, campsite_data) \<in> set month_data
            \<and> (date, ''Available'') \<in> set (availabilities campsite_data)
            \<and> \<not> (truthy ctype \<and> ctype \<noteq> Some (campsite_type campsite_data)))"
  by (simp only: listed_months_loop listed_Nil in_available_loop simp_thms)

text \<open>
  C10.  With \<open>campsite_type\<close> \<open>None\<close> or the empty string, a date is in the output list
  of a site exactly when some payload lists it for that site with status \<open>Available\<close>,
  whatever the declared type: the list built for a campsite entry is every such date, and
  the whole result is that of \<open>None\<close>.  With a non-empty string, the date is in the output
  list exactly when, in addition, the declared type of that entry equals the string.  The
  output has one list per site.  A call without the argument uses \<open>STANDARD NONELECTRIC\<close>.
\<close>

theorem no_type_filter_when_falsy:
  "(ctype = None \<or> ctype = Some '''' \<longrightarrow>
      (listed (months_loop ctype api_data []) site date \<longleftrightarrow>
         (\<exists>month_data \<in> set api_data. \<exists>campsite_data.
            (site, campsite_data) \<in> set month_data
            \<and> (date, ''Available'') \<in> set (availabilities campsite_data)))
      \<and> available_loop ctype declared avs []
        = map fst (filter (\<lambda>(date, v). v = ''Available'') avs)
      \<and> months_loop ctype api_data [] = months_loop None api_data [])
   \<and> (t \<noteq> '''' \<longrightarrow>
      (listed (months_loop (Some t) api_data []) site date \<longleftrightarrow>
         (\<exists>month_data \<in> set api_data. \<exists>campsite_data.
            (site, campsite_data) \<in> set month_data
            \<and> (date, ''Available'') \<in> set (availabilities campsite_data)
            \<and> campsite_type campsite_data = t))
      \<and> available_loop (Some t) declared avs []
        = (if t = declared then map fst (filter (\<lambda>(date, v). v = ''Available'') avs) else []))
   \<and> distinct (map fst (months_loop ctype api_data []))
   \<and> snd (get_park_information send_request park_id start_date end_date ctype)
        = months_loop ctype
            (List.map_filter (\<lambda>(url, params). send_request url params)
               (month_requests park_id start_date end_date)) []
   \<and> get_park_information_default send_request park_id start_date end_date
        = get_park_information send_request park_id start_date end_date
            (Some ''STANDARD NONELECTRIC'')"
proof (intro conjI impI)
  assume c: "ctype = None \<or> ctype = Some ''''"
  then have f: "\<not> truthy ctype" by (auto simp: truthy_def)
  show "listed (months_loop ctype api_data []) site date \<longleftrightarrow>
         (\<exists>month_data \<in> set api_data. \<exists>campsite_data.
            (site, campsite_data) \<in> set month_data
            \<and> (date, ''Available'') \<in> set (availabilities campsite_data))"
    by (simp only: listed_output f simp_thms)
  show "available_loop ctype declared avs []
        = map fst (filter (\<lambda>(date, v). v = ''Available'') avs)"
    by (simp add: available_loop_filter f)
  have "\<And>declared avs. available_loop ctype declared avs [] = available_loop None declared avs []"
    using f by (simp add: available_loop_filter truthy_def)
  then show "months_loop ctype api_data [] = months_loop None api_data []"
    by (rule months_loop_cong)
next
  assume "t \<noteq> ''''"
  then have tr: "truthy (Some t)" by (simp add: truthy_def)
  show "listed (months_loop (Some t) api_data []) site date \<longleftrightarrow>
         (\<exists>month_data \<in> set api_data. \<exists>campsite_data.
            (site, campsite_data) \<in> set month_data
            \<and> (date, ''Available'') \<in> set (availabilities campsite_data)
            \<and> campsite_type campsite_data = t)"
    unfolding listed_output using tr by auto
  show "available_loop (Some t) declared avs []
        = (if t = declared then map fst (filter (\<lambda>(date, v). v = ''Available'') avs) else [])"
    using tr by (auto simp: available_loop_filter)
next
  show "distinct (map fst (months_loop ctype api_data []))"
    by (rule distinct_months_loop) simp
next
  show "snd (get_park_information send_request park_id start_date end_date ctype)
        = months_loop ctype
            (List.map_filter (\<lambda>(url, params). send_request url params)
               (month_requests park_id start_date end_date)) []"
    by (simp only: get_park_information_def Let_def snd_conv)
next
  show "get_park_information_default send_request park_id start_date end_date
        = get_park_information send_request park_id start_date end_date
            (Some ''STANDARD NONELECTRIC'')"
    by (simp add: get_park_information_default_def)
qed

theorem no_type_filter_when_falsy_witness:
  "months_loop (Some '''')
     [[(''7'', \<lparr>campsite_type = ''STANDARD NONELECTRIC'',
                availabilities = [(''2024-06-07T00:00:00Z'', ''Available''),
                                  (''2024-06-08T00:00:00Z'', ''Reserved'')]\<rparr>),
       (''8'', \<lparr>campsite_type = ''RV'',
                availabilities = [(''2024-06-09T00:00:00Z'', ''Available'')]\<rparr>)]] []
     = [(''7'', [''2024-06-07T00:00:00Z'']), (''8'', [''2024-06-09T00:00:00Z''])]
   \<and> listed (months_loop (Some '''')
     [[(''7'', \<lparr>campsite_type = ''STANDARD NONELECTRIC'',
                availabilities = [(''2024-06-07T00:00:00Z'', ''Available''),
                                  (''2024-06-08T00:00:00Z'', ''Reserved'')]\<rparr>),
       (''8'', \<lparr>campsite_type = ''RV'',
                availabilities = [(''2024-06-09T00:00:00Z'', ''Available'')]\<rparr>)]] [])
       ''8'' ''2024-06-09T00:00:00Z''
   \<and> \<not> listed (months_loop (Some ''STANDARD NONELECTRIC'')
     [[(''7'', \<lparr>campsite_type = ''STANDARD NONELECTRIC'',
                availabilities = [(''2024-06-07T00:00:00Z'', ''Available''),
                                  (''2024-06-08T00:00:00Z'', ''Reserved'')]\<rparr>),
       (''8'', \<lparr>campsite_type = ''RV'',
                availabilities = [(''2024-06-09T00:00:00Z'', ''Available'')]\<rparr>)]] [])
       ''8'' ''2024-06-09T00:00:00Z''
   \<and> listed (months_loop (Some ''STANDARD NONELECTRIC'')
     [[(''7'', \<lparr>campsite_type = ''STANDARD NONELECTRIC'',
                availabilities = [(''2024-06-07T00:00:00Z'', ''Available''),
                                  (''2024-06-08T00:00:00Z'', ''Reserved'')]\<rparr>),
       (''8'', \<lparr>campsite_type = ''RV'',
                availabilities = [(''2024-06-09T00:00:00Z'', ''Available'')]\<rparr>)]] [])
       ''7'' ''2024-06-07T00:00:00Z''"
proof -
  let ?api = "[[(''7'', \<lparr>campsite_type = ''STANDARD NONELECTRIC'',
                availabilities = [(''2024-06-07T00:00:00Z'', ''Available''),
                                  (''2024-06-08T00:00:00Z'', ''Reserved'')]\<rparr>),
       (''8'', \<lparr>campsite_type = ''RV'',
                availabilities = [(''2024-06-09T00:00:00Z'', ''Available'')]\<rparr>)]]"
  have m: "months_loop (Some '''') ?api []
     = [(''7'', [''2024-06-07T00:00:00Z'']), (''8'', [''2024-06-09T00:00:00Z''])]"
    by (simp add: truthy_def)
  have 1: "listed (months_loop (Some '''') ?api []) ''8'' ''2024-06-09T00:00:00Z''"
    using no_type_filter_when_falsy [where ctype = "Some ''''" and api_data = ?api
        and site = "''8''" and date = "''2024-06-09T00:00:00Z''"]
    by (simp add: truthy_def)
  have 2: "\<not> listed (months_loop (Some ''STANDARD NONELECTRIC'') ?api [])
       ''8'' ''2024-06-09T00:00:00Z''"
    using no_type_filter_when_falsy [where t = "''STANDARD NONELECTRIC''" and api_data = ?api
        and site = "''8''" and date = "''2024-06-09T00:00:00Z''"]
    by (simp add: truthy_def)
  have 3: "listed (months_loop (Some ''STANDARD NONELECTRIC'') ?api [])
       ''7'' ''2024-06-07T00:00:00Z''"
    using no_type_filter_when_falsy [where t = "''STANDARD NONELECTRIC''" and api_data = ?api
        and site = "''7''" and date = "''2024-06-07T00:00:00Z''"]
    by (simp add: truthy_def)
  show ?thesis using m 1 2 3 by (intro conjI)
qed

section \<open>Analyzer: the effective number of nights\<close>

text \<open>
  C4.  When \<open>nights\<close> is absent, below 1, or above the number of days between start and
  end date, the analyzer uses that number of days instead: the loop over the sites runs
  with it, and the result is the one for that number passed as \<open>nights\<close>.
\<close>

theorem nights_defaulting:
  assumes "nights = None \<or> (\<exists>n. nights = Some n \<and> (n < 1 \<or> days_between end_date start_date < n))"
  shows "effective_nights nights (days_between end_date start_date)
           = days_between end_date start_date
       \<and> get_num_available_sites park_information start_date end_date nights
           = (case candidate_dates start_date end_date of
                None \<Rightarrow> None
              | Some dates \<Rightarrow>
                  map_option (\<lambda>(num_available, printed).
                                ((num_available, length park_information), printed))
                    (sites_loop dates (days_between end_date start_date) park_information
                       (0, [])))
       \<and> get_num_available_sites park_information start_date end_date nights
           = get_num_available_sites park_information start_date end_date
               (Some (days_between end_date start_date))"
proof -
  have e: "effective_nights nights (days_between end_date start_date)
           = days_between end_date start_date"
    using assms by (auto simp: effective_nights_def)
  have e': "effective_nights (Some (days_between end_date start_date))
              (days_between end_date start_date) = days_between end_date start_date"
    by (simp add: effective_nights_def)
  show ?thesis
    unfolding get_num_available_sites_def Let_def e e'
    by (auto split: option.splits)
qed

theorem nights_defaulting_witness:
  "days_between \<lparr>year = 2024, month = 6, day = 10\<rparr> \<lparr>year = 2024, month = 6, day = 1\<rparr> = 9
   \<and> effective_nights (Some 12)
        (days_between \<lparr>year = 2024, month = 6, day = 10\<rparr> \<lparr>year = 2024, month = 6, day = 1\<rparr>) = 9
   \<and> get_num_available_sites [(''A'', [''2024-06-07T00:00:00Z''])]
        \<lparr>year = 2024, month = 6, day = 1\<rparr> \<lparr>year = 2024, month = 6, day = 10\<rparr> (Some 12)
      = get_num_available_sites [(''A'', [''2024-06-07T00:00:00Z''])]
        \<lparr>year = 2024, month = 6, day = 1\<rparr> \<lparr>year = 2024, month = 6, day = 10\<rparr> (Some 9)"
proof -
  have h: "days_between \<lparr>year = 2024, month = 6, day = 10\<rparr>
             \<lparr>year = 2024, month = 6, day = 1\<rparr> = 9"
    by code_simp
  have "Some 12 = None \<or> (\<exists>n. Some (12::int) = Some n \<and> (n < 1
      \<or> days_between \<lparr>year = 2024, month = 6, day = 10\<rparr>
             \<lparr>year = 2024, month = 6, day = 1\<rparr> < n))"
    by (simp add: h)
  note n = nights_defaulting [OF this, of "[(''A'', [''2024-06-07T00:00:00Z''])]"]
  show ?thesis
    using conjunct1 [OF n] conjunct2 [OF conjunct2 [OF n]] h by simp
qed

section \<open>Fetcher: the months of a range\<close>












section \<open>Analyzer: the candidate days\<close>

lemma those_map_Some:
  assumes "\<And>x. x \<in> set xs \<Longrightarrow> f x = Some (g x)"
  shows "those (map f xs) = Some (map g xs)"
  using assms by (induction xs) simp_all

lemma minus_days_in_range:
  assumes "valid_date start_date" "valid_date end_date"
    "1 \<le> i" "i \<le> days_between end_date start_date"
  shows "minus_days end_date i = Some (ord2ymd (toordinal end_date - i))"
proof -
  have "1 \<le> toordinal end_date - i" "toordinal end_date - i \<le> MAXORDINAL"
    using assms toordinal_range [OF assms(1)] toordinal_range [OF assms(2)]
    by (simp_all add: days_between_def)
  then show ?thesis
    by (simp add: minus_days_def fromordinal_in_range(1))
qed

lemma candidate_dates_eq:
  assumes "valid_date start_date" "valid_date end_date"
  shows "candidate_dates start_date end_date
    = Some (map (\<lambda>d. format_date d ISO_DATE_FORMAT_RESPONSE)
        (filter (\<lambda>d. weekday d > 3 \<and> weekday d \<le> 6)
           (map (\<lambda>i. ord2ymd (toordinal end_date - i))
              [1..days_between end_date start_date])))"
proof -
  have "those (map (\<lambda>i. minus_days end_date i) [1..days_between end_date start_date])
      = Some (map (\<lambda>i. ord2ymd (toordinal end_date - i)) [1..days_between end_date start_date])"
    by (rule those_map_Some) (simp add: minus_days_in_range [OF assms])
  then show ?thesis
    by (simp add: candidate_dates_def Let_def del: format_date.simps)
qed

lemma weekday_456: "(weekday d > 3 \<and> weekday d \<le> 6) \<longleftrightarrow> weekday d \<in> {4, 5, 6}"
  by auto

lemma candidate_dates_set:
  assumes "valid_date start_date" "valid_date end_date"
    "candidate_dates start_date end_date = Some dates"
  shows "set dates = (\<lambda>d. format_date d ISO_DATE_FORMAT_RESPONSE) `
           {d. valid_date d \<and> toordinal start_date \<le> toordinal d
               \<and> toordinal d < toordinal end_date \<and> weekday d \<in> {4, 5, 6}}"
proof -
  let ?nd = "days_between end_date start_date"
  have rs: "toordinal start_date \<ge> 1" using toordinal_range [OF assms(1)] by simp
  have re: "toordinal end_date \<le> MAXORDINAL" using toordinal_range [OF assms(2)] by simp
  have "set (map (\<lambda>i. ord2ymd (toordinal end_date - i)) [1..?nd])
      = {d. valid_date d \<and> toordinal start_date \<le> toordinal d
               \<and> toordinal d < toordinal end_date}" (is "?L = ?R")
  proof (intro set_eqI iffI)
    fix d assume "d \<in> ?L"
    then obtain i where i: "1 \<le> i" "i \<le> ?nd" "d = ord2ymd (toordinal end_date - i)"
      by auto
    then have "1 \<le> toordinal end_date - i" "toordinal end_date - i \<le> MAXORDINAL"
      using rs re by (simp_all add: days_between_def)
    then have "valid_date d" "toordinal d = toordinal end_date - i"
      using i(3) by (simp_all add: fromordinal_in_range)
    then show "d \<in> ?R" using i(1,2) by (simp add: days_between_def)
  next
    fix d assume "d \<in> ?R"
    then have d: "valid_date d" "toordinal start_date \<le> toordinal d"
      "toordinal d < toordinal end_date" by simp_all
    let ?i = "toordinal end_date - toordinal d"
    have "1 \<le> ?i" "?i \<le> ?nd" using d by (simp_all add: days_between_def)
    moreover have "ord2ymd (toordinal end_date - ?i) = d"
      using d(1) by (simp add: toordinal_ord2ymd)
    ultimately show "d \<in> ?L" by force
  qed
  then have "set (filter (\<lambda>d. weekday d > 3 \<and> weekday d \<le> 6)
           (map (\<lambda>i. ord2ymd (toordinal end_date - i)) [1..?nd]))
     = {d. valid_date d \<and> toordinal start_date \<le> toordinal d
               \<and> toordinal d < toordinal end_date \<and> weekday d \<in> {4, 5, 6}}"
    unfolding set_filter weekday_456 by blast
  moreover have "dates = map (\<lambda>d. format_date d ISO_DATE_FORMAT_RESPONSE)
        (filter (\<lambda>d. weekday d > 3 \<and> weekday d \<le> 6)
           (map (\<lambda>i. ord2ymd (toordinal end_date - i)) [1..?nd]))"
    using candidate_dates_eq [OF assms(1,2)] assms(3) by simp
  ultimately show ?thesis by (simp only: set_map)
qed

text \<open>
  C1, as stated, fails.  From Friday 2024-06-07 to Sunday 2024-06-09 the end day is a
  Sunday after the start day, so the claim has it among the candidates; the analyzer's
  set holds the days \<open>end_date - 1\<close> down to \<open>end_date - num_days\<close> and so does not.
\<close>

theorem candidate_days_counterexample:
  "\<not> (is_candidate \<lparr>year = 2024, month = 6, day = 7\<rparr> \<lparr>year = 2024, month = 6, day = 9\<rparr>
          \<lparr>year = 2024, month = 6, day = 9\<rparr>
       \<longleftrightarrow> spec_candidate_day \<lparr>year = 2024, month = 6, day = 7\<rparr>
          \<lparr>year = 2024, month = 6, day = 9\<rparr> \<lparr>year = 2024, month = 6, day = 9\<rparr>)"
  by code_simp

text \<open>
  C1, amended.  The set of candidate days is exactly the calendar days from the start day
  up to the day before the end day, start day included and end day excluded, whose weekday
  (Monday 0) is 4, 5 or 6; the set used for the intersection holds their response-format
  strings and nothing else.
\<close>

theorem candidate_days:
  assumes "valid_date start_date" "valid_date end_date" "valid_date d"
  shows "(is_candidate start_date end_date d \<longleftrightarrow>
            toordinal start_date \<le> toordinal d \<and> toordinal d < toordinal end_date
            \<and> weekday d \<in> {4, 5, 6})
       \<and> (\<exists>dates. candidate_dates start_date end_date = Some dates
            \<and> set dates = (\<lambda>d. format_date d ISO_DATE_FORMAT_RESPONSE) `
                 {d. valid_date d \<and> toordinal start_date \<le> toordinal d
                     \<and> toordinal d < toordinal end_date \<and> weekday d \<in> {4, 5, 6}})"
proof -
  obtain dates where c: "candidate_dates start_date end_date = Some dates"
    using candidate_dates_eq [OF assms(1,2)] by blast
  note s = candidate_dates_set [OF assms(1,2) c]
  have "format_date d ISO_DATE_FORMAT_RESPONSE \<in> set dates \<longleftrightarrow>
      toordinal start_date \<le> toordinal d \<and> toordinal d < toordinal end_date
            \<and> weekday d \<in> {4, 5, 6}"
  proof
    assume "format_date d ISO_DATE_FORMAT_RESPONSE \<in> set dates"
    then obtain d' where d': "valid_date d'" "toordinal start_date \<le> toordinal d'"
      "toordinal d' < toordinal end_date" "weekday d' \<in> {4, 5, 6}"
      "format_date d ISO_DATE_FORMAT_RESPONSE = format_date d' ISO_DATE_FORMAT_RESPONSE"
      unfolding s by blast
    have "d = d'" using assms(3) d'(1,5) by (rule format_response_inject)
    then show "toordinal start_date \<le> toordinal d \<and> toordinal d < toordinal end_date
            \<and> weekday d \<in> {4, 5, 6}" using d' by simp
  next
    assume "toordinal start_date \<le> toordinal d \<and> toordinal d < toordinal end_date
            \<and> weekday d \<in> {4, 5, 6}"
    then show "format_date d ISO_DATE_FORMAT_RESPONSE \<in> set dates"
      unfolding s using assms(3) by blast
  qed
  then show ?thesis using c s by (simp add: is_candidate_def del: format_date.simps)
qed

theorem candidate_days_witness:
  "valid_date \<lparr>year = 2024, month = 6, day = 7\<rparr>
   \<and> valid_date \<lparr>year = 2024, month = 6, day = 9\<rparr>
   \<and> is_candidate \<lparr>year = 2024, month = 6, day = 7\<rparr> \<lparr>year = 2024, month = 6, day = 9\<rparr>
         \<lparr>year = 2024, month = 6, day = 7\<rparr>
   \<and> weekday \<lparr>year = 2024, month = 6, day = 7\<rparr> = 4"
proof -
  have s: "valid_date \<lparr>year = 2024, month = 6, day = 7\<rparr>" by code_simp
  have e: "valid_date \<lparr>year = 2024, month = 6, day = 9\<rparr>" by code_simp
  have o: "toordinal \<lparr>year = 2024, month = 6, day = 7\<rparr> = 739044"
    "toordinal \<lparr>year = 2024, month = 6, day = 9\<rparr> = 739046"
    "weekday \<lparr>year = 2024, month = 6, day = 7\<rparr> = 4"
    by code_simp+
  show ?thesis
    using conjunct1 [OF candidate_days [OF s e s]] s e by (simp add: o)
qed

section \<open>Analyzer: runs of consecutive nights\<close>

lemma groupby_segments:
  "(k, l) \<in> set (groupby kxs) \<Longrightarrow>
     \<exists>pre seg post. kxs = pre @ seg @ post \<and> seg \<noteq> [] \<and> l = map snd seg
        \<and> (\<forall>p \<in> set seg. fst p = k)"
proof (induction kxs rule: groupby.induct)
  case 1
  then show ?case by simp
next
  case (2 k0 x kxs)
  let ?tw = "takeWhile (\<lambda>p. fst p = k0) kxs"
  let ?dw = "dropWhile (\<lambda>p. fst p = k0) kxs"
  from "2.prems" consider (first) "k = k0" "l = x # map snd ?tw"
    | (later) "(k, l) \<in> set (groupby ?dw)"
    by auto
  then show ?case
  proof cases
    case first
    have "(k0, x) # kxs = [] @ ((k0, x) # ?tw) @ ?dw" by simp
    moreover have "\<forall>p \<in> set ((k0, x) # ?tw). fst p = k"
      using first(1) by (auto dest: set_takeWhileD)
    moreover have "l = map snd ((k0, x) # ?tw)" using first(2) by simp
    ultimately show ?thesis by blast
  next
    case later
    then obtain pre seg post where s: "?dw = pre @ seg @ post" "seg \<noteq> []" "l = map snd seg"
      "\<forall>p \<in> set seg. fst p = k"
      using "2.IH" by blast
    have "(k0, x) # kxs = ((k0, x) # ?tw @ pre) @ seg @ post"
      using s(1) by (metis append_Cons append_assoc takeWhile_dropWhile_id)
    with s(2,3,4) show ?thesis by blast
  qed
qed

lemma counted_keys_length: "length (counted_keys xs) = length xs"
  by (simp add: counted_keys_def)

lemma counted_keys_nth:
  "i < length xs \<Longrightarrow> counted_keys xs ! i = (xs ! i - int i, xs ! i)"
  by (simp add: counted_keys_def nth_enumerate_eq)

lemma upto_as_map: "[a..a + int n - 1] = map (\<lambda>j. a + int j) [0..<n]"
  by (rule nth_equalityI) (simp_all add: nth_upto)

lemma groups_consecutive:
  assumes "(k, l) \<in> set (groupby (counted_keys xs))"
  shows "l \<noteq> [] \<and> set l \<subseteq> set xs \<and> l = [hd l..hd l + int (length l) - 1]"
proof -
  obtain pre seg post where s: "counted_keys xs = pre @ seg @ post" "seg \<noteq> []"
    "l = map snd seg" "\<forall>p \<in> set seg. fst p = k"
    using groupby_segments [OF assms] by blast
  let ?p = "length pre"
  have len: "?p + length seg \<le> length xs"
    using arg_cong [OF s(1), of length] by (simp add: counted_keys_length)
  have nth: "seg ! j = (xs ! (?p + j) - int (?p + j), xs ! (?p + j))" if "j < length seg" for j
  proof -
    have "seg ! j = (pre @ seg @ post) ! (?p + j)"
      using that by (simp add: nth_append)
    also have "\<dots> = counted_keys xs ! (?p + j)" by (simp only: s(1))
    also have "\<dots> = (xs ! (?p + j) - int (?p + j), xs ! (?p + j))"
      using that len by (intro counted_keys_nth) simp
    finally show ?thesis .
  qed
  have val: "l ! j = k + int ?p + int j" "l ! j \<in> set xs" if "j < length seg" for j
  proof -
    have "fst (seg ! j) = k" using s(4) that by simp
    then have "xs ! (?p + j) - int (?p + j) = k" using nth [OF that] by simp
    moreover have "l ! j = xs ! (?p + j)" using nth [OF that] that by (simp add: s(3))
    ultimately show "l ! j = k + int ?p + int j" by simp
    show "l ! j \<in> set xs" using \<open>l ! j = xs ! (?p + j)\<close> len that by simp
  qed
  have ll: "length l = length seg" by (simp add: s(3))
  have 1: "l \<noteq> []" using s(2,3) by simp
  have 2: "set l \<subseteq> set xs"
    using val(2) ll by (auto simp: in_set_conv_nth)
  have "0 < length seg" using s(2) by simp
  then have "l ! 0 = k + int ?p + int 0" by (rule val(1))
  then have h: "hd l = k + int ?p"
    using 1 by (simp add: hd_conv_nth)
  have "l = map (\<lambda>j. hd l + int j) [0..<length l]"
    by (rule nth_equalityI) (simp_all add: val(1) ll h)
  then have 3: "l = [hd l..hd l + int (length l) - 1]"
    by (simp only: upto_as_map)
  show ?thesis using 1 2 3 by blast
qed

lemma maximal_run_extend:
  assumes "finite S" "a \<le> b" "{a..b} \<subseteq> S"
  shows "\<exists>a' b'. a' \<le> a \<and> b \<le> b' \<and> maximal_run S a' b'"
proof -
  define A where "A = {x. x \<le> a \<and> {x..b} \<subseteq> S}"
  have "A \<subseteq> S" using assms(2) by (auto simp: A_def)
  then have fA: "finite A" using assms(1) by (rule finite_subset)
  have "a \<in> A" using assms(3) by (simp add: A_def)
  then have neA: "A \<noteq> {}" by blast
  define a' where "a' = Min A"
  have a'A: "a' \<in> A" unfolding a'_def using fA neA by (rule Min_in)
  then have a': "a' \<le> a" "{a'..b} \<subseteq> S" by (simp_all add: A_def)
  have lo: "a' - 1 \<notin> S"
  proof
    assume "a' - 1 \<in> S"
    moreover have "{a' - 1..b} = insert (a' - 1) {a'..b}" using a'(1) assms(2) by auto
    ultimately have "a' - 1 \<in> A" using a' by (simp add: A_def)
    with fA have "Min A \<le> a' - 1" by (rule Min_le)
    then show False by (simp add: a'_def)
  qed
  define B where "B = {y. b \<le> y \<and> {a'..y} \<subseteq> S}"
  have "B \<subseteq> S" using a'(1) assms(2) by (auto simp: B_def)
  then have fB: "finite B" using assms(1) by (rule finite_subset)
  have "b \<in> B" using a'(2) by (simp add: B_def)
  then have neB: "B \<noteq> {}" by blast
  define b' where "b' = Max B"
  have "b' \<in> B" unfolding b'_def using fB neB by (rule Max_in)
  then have b': "b \<le> b'" "{a'..b'} \<subseteq> S" by (simp_all add: B_def)
  have hi: "b' + 1 \<notin> S"
  proof
    assume "b' + 1 \<in> S"
    moreover have "{a'..b' + 1} = insert (b' + 1) {a'..b'}" using a'(1) assms(2) b'(1) by auto
    ultimately have "b' + 1 \<in> B" using b' by (simp add: B_def)
    with fB have "b' + 1 \<le> Max B" by (rule Max_ge)
    then show False by (simp add: b'_def)
  qed
  have "maximal_run S a' b'"
    using a' b' lo hi assms(2) by (simp add: maximal_run_def)
  with a'(1) b'(1) show ?thesis by blast
qed

lemma groupby_elements:
  assumes "(k, l) \<in> set (groupby kxs)" "x \<in> set l"
  shows "x \<in> snd ` set kxs"
proof -
  obtain pre seg post where "kxs = pre @ seg @ post" "l = map snd seg"
    using groupby_segments [OF assms(1)] by blast
  then show ?thesis using assms(2) by auto
qed

lemma counted_keys_values: "snd ` set (counted_keys xs) = set xs"
proof -
  have "map snd (counted_keys xs) = xs"
    by (rule nth_equalityI) (simp_all add: counted_keys_length counted_keys_nth)
  then have "set (map snd (counted_keys xs)) = set xs" by simp
  then show ?thesis by (simp only: set_map)
qed

lemma those_eq_Some: "those xs = Some ys \<Longrightarrow> xs = map Some ys"
proof (induction xs arbitrary: ys)
  case Nil
  then show ?case by simp
next
  case (Cons x xs)
  then show ?case by (auto split: option.splits)
qed

lemma those_map_filter:
  assumes "those (map f xs) = Some ys"
  shows "List.map_filter f xs = ys"
proof -
  have m: "map f xs = map Some ys" using assms by (rule those_eq_Some)
  have "\<forall>x \<in> set xs. f x \<noteq> None"
  proof
    fix x assume "x \<in> set xs"
    then have "f x \<in> set (map f xs)" by simp
    then show "f x \<noteq> None" unfolding m by auto
  qed
  then have "filter (\<lambda>x. f x \<noteq> None) xs = xs" by simp
  then have "List.map_filter f xs = map the (map f xs)"
    by (simp add: List.map_filter_def)
  then show ?thesis unfolding m by (simp add: comp_def)
qed

lemma those_length:
  assumes "those xs = Some ys"
  shows "length ys = length xs"
  using those_eq_Some [OF assms] by simp

lemma strptime_response_valid: "strptime_response s = Some d \<Longrightarrow> valid_date d"
  by (auto simp: strptime_response_def Let_def split: if_splits)

lemma consecutive_nights_Some:
  assumes "consecutive_nights desired nights = Some (found, options)"
  shows "\<exists>parsed. those (map strptime_response desired) = Some parsed
           \<and> (found \<longleftrightarrow> filter (\<lambda>(key, l). int (length l) \<ge> nights)
                            (groupby (counted_keys (map toordinal parsed))) \<noteq> [])"
proof -
  obtain parsed where p: "those (map strptime_response desired) = Some parsed"
    using assms by (auto simp: consecutive_nights_def split: option.splits)
  define long where "long = filter (\<lambda>(key, l). int (length l) \<ge> nights)
                            (groupby (counted_keys (map toordinal parsed)))"
  have o: "those (map (\<lambda>(key, l).
                    those (map (\<lambda>dor. map_option (\<lambda>d. format_date d INPUT_DATE_FORMAT)
                                        (fromordinal dor)) l)) long) = Some options"
    and f: "found \<longleftrightarrow> length options > 0"
    using assms unfolding consecutive_nights_def p option.case Let_def long_def [symmetric]
    by (auto split: option.splits)
  have "length options = length long" using those_length [OF o] by simp
  then have "found \<longleftrightarrow> long \<noteq> []" using f by simp
  with p show ?thesis unfolding long_def by blast
qed

lemma consecutive_nights_run:
  assumes "consecutive_nights desired nights = Some (True, options)"
  shows "\<exists>a b. a \<le> b \<and> nights \<le> b - a + 1
           \<and> {a..b} \<subseteq> set (map toordinal (List.map_filter strptime_response desired))"
proof -
  obtain parsed where p: "those (map strptime_response desired) = Some parsed"
    and ne: "filter (\<lambda>(key, l). int (length l) \<ge> nights)
                            (groupby (counted_keys (map toordinal parsed))) \<noteq> []"
    using consecutive_nights_Some [OF assms] by blast
  from ne obtain k l where g: "(k, l) \<in> set (groupby (counted_keys (map toordinal parsed)))"
    and n: "nights \<le> int (length l)"
    by (auto simp: filter_empty_conv)
  from groups_consecutive [OF g]
  have l: "l \<noteq> []" "set l \<subseteq> set (map toordinal parsed)"
    "l = [hd l..hd l + int (length l) - 1]"
    by simp_all
  have "set l = {hd l..hd l + int (length l) - 1}"
    by (subst l(3)) (simp only: set_upto)
  then have sub: "{hd l..hd l + int (length l) - 1}
      \<subseteq> set (map toordinal (List.map_filter strptime_response desired))"
    using l(2) by (simp only: those_map_filter [OF p])
  have "0 < length l" using l(1) by simp
  then have le: "hd l \<le> hd l + int (length l) - 1" by simp
  have "nights \<le> (hd l + int (length l) - 1) - hd l + 1" using n by simp
  with le sub show ?thesis by blast
qed

lemma sites_loop_Some:
  assumes "sites_loop dates nights park (num_available, printed) = Some (num', printed')"
  shows "num' = num_available + length (concat (map (site_lines dates nights) park))
       \<and> printed' = printed @ concat (map (site_lines dates nights) park)"
  using assms
proof (induction park arbitrary: num_available printed)
  case Nil
  then show ?case by simp
next
  case (Cons entry park)
  obtain site avail where e: "entry = (site, avail)" by (cases entry)
  let ?desired = "filter (\<lambda>date. date \<in> set dates) avail"
  show ?case
  proof (cases "?desired = []")
    case True
    then have "sites_loop dates nights park (num_available, printed) = Some (num', printed')"
      using Cons.prems by (simp add: e)
    from Cons.IH [OF this] show ?thesis using True by (simp add: e site_lines_def)
  next
    case False
    then obtain found options where c: "consecutive_nights ?desired nights = Some (found, options)"
      using Cons.prems by (auto simp: e Let_def split: option.splits)
    show ?thesis
    proof (cases found)
      case True
      then have "sites_loop dates nights park (num_available + 1, printed @ [(site, options)])
          = Some (num', printed')"
        using Cons.prems False c by (simp add: e)
      from Cons.IH [OF this] show ?thesis
        using False c True by (simp add: e site_lines_def)
    next
      case f: False
      then have "sites_loop dates nights park (num_available, printed) = Some (num', printed')"
        using Cons.prems False c by (simp add: e)
      from Cons.IH [OF this] show ?thesis
        using False c f by (simp add: e site_lines_def)
    qed
  qed
qed

lemma get_num_available_sites_Some:
  assumes "get_num_available_sites park_information start_date end_date nights
       = Some ((num_available, maximum), printed)"
  shows "\<exists>dates. candidate_dates start_date end_date = Some dates
       \<and> printed = concat (map (site_lines dates
                     (effective_nights nights (days_between end_date start_date)))
                   park_information)
       \<and> num_available = length printed \<and> maximum = length park_information"
proof -
  let ?n = "effective_nights nights (days_between end_date start_date)"
  obtain dates where c: "candidate_dates start_date end_date = Some dates"
    using assms by (auto simp: get_num_available_sites_def Let_def split: option.splits)
  have "sites_loop dates ?n park_information (0, []) = Some (num_available, printed)"
    and m: "maximum = length park_information"
    using assms by (auto simp: get_num_available_sites_def Let_def c split: option.splits)
  from sites_loop_Some [OF this(1)] c m show ?thesis by simp
qed

text \<open>
  C3.  A site the analyzer reports as available has, among the day numbers of its
  available dates that lie in the candidate set, a maximal run of consecutive days at
  least as long as the effective number of nights.  The count returned is the number of
  sites reported, so no site whose maximal runs are all shorter is counted.
\<close>

theorem qualification_sound:
  assumes "valid_date start_date" "valid_date end_date"
    "get_num_available_sites park_information start_date end_date nights
       = Some ((num_available, maximum), printed)"
    "(site, options) \<in> set printed"
  shows "num_available = length printed
       \<and> (\<exists>available dates a b.
             (site, available) \<in> set park_information
             \<and> candidate_dates start_date end_date = Some dates
             \<and> maximal_run (filtered_days dates available) a b
             \<and> effective_nights nights (days_between end_date start_date) \<le> b - a + 1)"
proof -
  let ?n = "effective_nights nights (days_between end_date start_date)"
  obtain dates where c: "candidate_dates start_date end_date = Some dates"
    and p: "printed = concat (map (site_lines dates ?n) park_information)"
    and num: "num_available = length printed"
    using get_num_available_sites_Some [OF assms(3)] by blast
  from assms(4) obtain entry where e: "entry \<in> set park_information"
    "(site, options) \<in> set (site_lines dates ?n entry)"
    unfolding p by auto
  obtain s available where se: "entry = (s, available)" by (cases entry)
  let ?desired = "filter (\<lambda>date. date \<in> set dates) available"
  have q: "s = site" "?desired \<noteq> []" "consecutive_nights ?desired ?n = Some (True, options)"
    using e(2) unfolding se site_lines_def Let_def
    by (auto split: if_splits option.splits bool.splits)
  from consecutive_nights_run [OF q(3)]
  obtain a b where ab: "a \<le> b" "?n \<le> b - a + 1" "{a..b} \<subseteq> filtered_days dates available"
    unfolding filtered_days_def by blast
  have "finite (filtered_days dates available)" by (simp add: filtered_days_def)
  from maximal_run_extend [OF this ab(1,3)]
  obtain a' b' where m: "a' \<le> a" "b \<le> b'" "maximal_run (filtered_days dates available) a' b'"
    by blast
  have "?n \<le> b' - a' + 1" using ab(2) m(1,2) by simp
  moreover have "(site, available) \<in> set park_information" using e(1) se q(1) by simp
  ultimately show ?thesis using num c m(3) by blast
qed

theorem qualification_sound_witness:
  "valid_date \<lparr>year = 2024, month = 6, day = 1\<rparr>
   \<and> valid_date \<lparr>year = 2024, month = 6, day = 10\<rparr>
   \<and> get_num_available_sites
        [(''A'', [''2024-06-07T00:00:00Z'', ''2024-06-08T00:00:00Z'', ''2024-06-09T00:00:00Z''])]
        \<lparr>year = 2024, month = 6, day = 1\<rparr> \<lparr>year = 2024, month = 6, day = 10\<rparr> (Some 2)
      = Some ((1, 1), [(''A'', [[''2024-06-07'', ''2024-06-08'', ''2024-06-09'']])])
   \<and> (\<exists>available dates a b.
         (''A'', available)
           \<in> set [(''A'', [''2024-06-07T00:00:00Z'', ''2024-06-08T00:00:00Z'',
                            ''2024-06-09T00:00:00Z''])]
         \<and> candidate_dates \<lparr>year = 2024, month = 6, day = 1\<rparr>
              \<lparr>year = 2024, month = 6, day = 10\<rparr> = Some dates
         \<and> maximal_run (filtered_days dates available) a b
         \<and> effective_nights (Some 2)
              (days_between \<lparr>year = 2024, month = 6, day = 10\<rparr>
                 \<lparr>year = 2024, month = 6, day = 1\<rparr>) \<le> b - a + 1)"
proof -
  have s: "valid_date \<lparr>year = 2024, month = 6, day = 1\<rparr>" by code_simp
  have e: "valid_date \<lparr>year = 2024, month = 6, day = 10\<rparr>" by code_simp
  have r: "get_num_available_sites
        [(''A'', [''2024-06-07T00:00:00Z'', ''2024-06-08T00:00:00Z'', ''2024-06-09T00:00:00Z''])]
        \<lparr>year = 2024, month = 6, day = 1\<rparr> \<lparr>year = 2024, month = 6, day = 10\<rparr> (Some 2)
      = Some ((1, 1), [(''A'', [[''2024-06-07'', ''2024-06-08'', ''2024-06-09'']])])"
    by code_simp
  have m: "(''A'', [[''2024-06-07'', ''2024-06-08'', ''2024-06-09'']])
      \<in> set [(''A'', [[''2024-06-07'', ''2024-06-08'', ''2024-06-09'']])]"
    by simp
  from conjunct2 [OF qualification_sound [OF s e r m]] s e r
  show ?thesis by (intro conjI)
qed

lemma ord2ymd_year_1000: "1000 \<le> year (ord2ymd n) \<longleftrightarrow> 364878 \<le> n"
proof (cases n rule: ord2ymd_cases)
  case (regular a b c e f)
  obtain m d where md: "month_and_day (e = 3 \<and> (c \<noteq> 24 \<or> b = 3)) f = (m, d)" by force
  have y: "year (ord2ymd n) = 400 * a + 100 * b + 4 * c + e + 1"
    using regular(10) md by simp
  have "a \<le> 1 \<or> a = 2 \<or> 3 \<le> a" by arith
  then show ?thesis
    unfolding y using regular(1-9) by (elim disjE) arith+
next
  case (last a b c)
  have y: "year (ord2ymd n) = 400 * a + 100 * b + 4 * c + 3 + 1"
    using last(7) by simp
  have "a \<le> 1 \<or> a = 2 \<or> 3 \<le> a" by arith
  then show ?thesis
    unfolding y using last(1-6) by (elim disjE) arith+
qed

lemma year_1000_toordinal:
  assumes "valid_date d"
  shows "1000 \<le> year d \<longleftrightarrow> 364878 \<le> toordinal d"
  using ord2ymd_year_1000 [of "toordinal d"] toordinal_ord2ymd [OF assms] by simp

lemma candidate_dates_formatted:
  assumes "valid_date start_date" "valid_date end_date" "1000 \<le> year start_date"
    "candidate_dates start_date end_date = Some dates"
  shows "\<forall>x \<in> set dates. \<exists>d. (valid_date d \<and> 1000 \<le> year d)
            \<and> x = format_date d ISO_DATE_FORMAT_RESPONSE"
proof
  fix x assume "x \<in> set dates"
  then obtain d where d: "valid_date d" "toordinal start_date \<le> toordinal d"
    "x = format_date d ISO_DATE_FORMAT_RESPONSE"
    unfolding candidate_dates_set [OF assms(1,2,4)] by blast
  have "364878 \<le> toordinal start_date"
    using assms(3) year_1000_toordinal [OF assms(1)] by simp
  then have "1000 \<le> year d"
    using d(2) year_1000_toordinal [OF d(1)] by simp
  with d(1,3) show "\<exists>d. (valid_date d \<and> 1000 \<le> year d)
            \<and> x = format_date d ISO_DATE_FORMAT_RESPONSE" by blast
qed

lemma formatted_decompose:
  assumes "\<forall>x \<in> set xs. \<exists>d. P d \<and> x = format_date d ISO_DATE_FORMAT_RESPONSE"
  shows "\<exists>ds. xs = map (\<lambda>d. format_date d ISO_DATE_FORMAT_RESPONSE) ds
           \<and> (\<forall>d \<in> set ds. P d)"
  using assms
proof (induction xs)
  case Nil
  then show ?case by simp
next
  case (Cons x xs)
  then obtain d where d: "P d" "x = format_date d ISO_DATE_FORMAT_RESPONSE"
    by auto
  from Cons obtain ds where ds: "xs = map (\<lambda>d. format_date d ISO_DATE_FORMAT_RESPONSE) ds"
    "\<forall>d \<in> set ds. P d" by auto
  have "x # xs = map (\<lambda>d. format_date d ISO_DATE_FORMAT_RESPONSE) (d # ds)"
    using d(2) ds(1) by simp
  moreover have "\<forall>d \<in> set (d # ds). P d" using d(1) ds(2) by simp
  ultimately show ?case by (intro exI [of _ "d # ds"] conjI)
qed

lemma parse_formatted:
  assumes "\<forall>d \<in> set ds. valid_date d \<and> 1000 \<le> year d"
  shows "those (map strptime_response (map (\<lambda>d. format_date d ISO_DATE_FORMAT_RESPONSE) ds))
           = Some ds"
proof -
  have "those (map (\<lambda>d. strptime_response (format_date d ISO_DATE_FORMAT_RESPONSE)) ds)
      = Some (map (\<lambda>d. d) ds)"
    by (rule those_map_Some) (use assms strptime_format in blast)
  then show ?thesis by (simp only: map_map comp_def map_ident)
qed

lemma consecutive_nights_total:
  assumes "\<forall>x \<in> set xs. \<exists>d. (valid_date d \<and> 1000 \<le> year d)
            \<and> x = format_date d ISO_DATE_FORMAT_RESPONSE"
  shows "\<exists>found options. consecutive_nights xs nights = Some (found, options)"
proof -
  obtain ds where ds: "xs = map (\<lambda>d. format_date d ISO_DATE_FORMAT_RESPONSE) ds"
    "\<forall>d \<in> set ds. valid_date d \<and> 1000 \<le> year d"
    using formatted_decompose [OF assms] by blast
  have p: "those (map strptime_response xs) = Some ds"
    unfolding ds(1) using ds(2) by (rule parse_formatted)
  define long where "long = filter (\<lambda>(key, l). int (length l) \<ge> nights)
                    (groupby (counted_keys (map toordinal ds)))"
  have inner: "those (map (\<lambda>dor. map_option (\<lambda>d. format_date d INPUT_DATE_FORMAT)
                                        (fromordinal dor)) l)
      = Some (map (\<lambda>dor. format_date (ord2ymd dor) INPUT_DATE_FORMAT) l)"
    if "(k, l) \<in> set long" for k l
  proof (rule those_map_Some)
    fix dor assume "dor \<in> set l"
    moreover have "(k, l) \<in> set (groupby (counted_keys (map toordinal ds)))"
      using that by (simp add: long_def)
    ultimately have "dor \<in> snd ` set (counted_keys (map toordinal ds))"
      by (auto intro: groupby_elements)
    then have "dor \<in> set (map toordinal ds)" by (simp only: counted_keys_values)
    then obtain d where "d \<in> set ds" "dor = toordinal d" by auto
    then have "1 \<le> dor" "dor \<le> MAXORDINAL"
      using ds(2) toordinal_range by auto
    then have "fromordinal dor = Some (ord2ymd dor)" by (rule fromordinal_in_range(1))
    then show "map_option (\<lambda>d. format_date d INPUT_DATE_FORMAT) (fromordinal dor)
        = Some (format_date (ord2ymd dor) INPUT_DATE_FORMAT)"
      by (simp del: format_date.simps)
  qed
  have outer: "those (map (\<lambda>(key, l).
                    those (map (\<lambda>dor. map_option (\<lambda>d. format_date d INPUT_DATE_FORMAT)
                                        (fromordinal dor)) l)) long)
     = Some (map (\<lambda>(key, l). map (\<lambda>dor. format_date (ord2ymd dor) INPUT_DATE_FORMAT) l) long)"
    by (rule those_map_Some) (auto simp del: format_date.simps dest: inner)
  show ?thesis
    unfolding consecutive_nights_def p Let_def
    by (simp only: option.case long_def [symmetric] outer) blast
qed

lemma sites_loop_total:
  assumes "\<forall>x \<in> set dates. \<exists>d. (valid_date d \<and> 1000 \<le> year d)
            \<and> x = format_date d ISO_DATE_FORMAT_RESPONSE"
  shows "\<exists>st. sites_loop dates nights park (num_available, printed) = Some st"
proof (induction park arbitrary: num_available printed)
  case Nil
  then show ?case by simp
next
  case (Cons entry park)
  obtain site avail where e: "entry = (site, avail)" by (cases entry)
  let ?desired = "filter (\<lambda>date. date \<in> set dates) avail"
  show ?case
  proof (cases "?desired = []")
    case True
    then show ?thesis using Cons.IH by (simp add: e)
  next
    case False
    have "\<forall>x \<in> set ?desired. \<exists>d. (valid_date d \<and> 1000 \<le> year d)
            \<and> x = format_date d ISO_DATE_FORMAT_RESPONSE"
      using assms by simp
    then obtain found options where c: "consecutive_nights ?desired nights = Some (found, options)"
      using consecutive_nights_total by blast
    show ?thesis
      using False c Cons.IH by (cases found) (simp_all add: e)
  qed
qed

lemma site_lines_counts:
  "length (site_lines dates nights entry) = (if site_counts dates nights entry then 1 else 0)"
  "map fst (site_lines dates nights entry)
     = (if site_counts dates nights entry then [fst entry] else [])"
  by (auto simp: site_lines_def site_counts_def Let_def split: option.splits bool.splits)

lemma concat_site_lines:
  "length (concat (map (site_lines dates nights) park))
     = length (filter (site_counts dates nights) park)"
  "map fst (concat (map (site_lines dates nights) park))
     = map fst (filter (site_counts dates nights) park)"
  by (induction park) (simp_all add: site_lines_counts)

text \<open>
  C9, as stated, fails.  Between 0999-06-01 and 0999-06-10 the candidate dates are written
  with a three-digit year; a site that lists one of them is handed to
  \<open>consecutive_nights\<close>, whose parser refuses the string, and the analyzer ends in that
  error and returns no pair.
\<close>

theorem return_shape_counterexample:
  "valid_date \<lparr>year = 999, month = 6, day = 1\<rparr>
   \<and> valid_date \<lparr>year = 999, month = 6, day = 10\<rparr>
   \<and> get_num_available_sites [(''A'', [''999-06-07T00:00:00Z''])]
        \<lparr>year = 999, month = 6, day = 1\<rparr> \<lparr>year = 999, month = 6, day = 10\<rparr> None = None"
  by code_simp

text \<open>
  C9, amended.  Whenever the analyzer returns, and it always does for a start date in the
  year 1000 or later, it returns a pair: the first component is the number of sites of the
  map that count as available, which are the sites it reports, in order; the second is the
  number of sites in the map, however many of them count.  For the empty map the pair is
  (0, 0), for every pair of dates.
\<close>

theorem return_shape:
  assumes "valid_date start_date" "valid_date end_date"
  shows "(1000 \<le> year start_date \<longrightarrow>
            (\<exists>result. get_num_available_sites park_information start_date end_date nights
                        = Some result))
       \<and> (\<forall>num_available maximum printed.
            get_num_available_sites park_information start_date end_date nights
              = Some ((num_available, maximum), printed) \<longrightarrow>
            maximum = length park_information
            \<and> (\<exists>dates. candidate_dates start_date end_date = Some dates
                 \<and> num_available
                     = length (filter (site_counts dates
                         (effective_nights nights (days_between end_date start_date)))
                         park_information)
                 \<and> map fst printed
                     = map fst (filter (site_counts dates
                         (effective_nights nights (days_between end_date start_date)))
                         park_information)))
       \<and> get_num_available_sites [] start_date end_date nights = Some ((0, 0), [])"
proof (intro conjI impI allI)
  assume y: "1000 \<le> year start_date"
  obtain dates where c: "candidate_dates start_date end_date = Some dates"
    using candidate_dates_eq [OF assms] by blast
  obtain st where "sites_loop dates (effective_nights nights (days_between end_date start_date))
      park_information (0, []) = Some st"
    using sites_loop_total [OF candidate_dates_formatted [OF assms y c]] by blast
  then show "\<exists>result. get_num_available_sites park_information start_date end_date nights
                        = Some result"
    by (cases st) (simp add: get_num_available_sites_def c Let_def)
next
  fix num_available maximum printed
  assume "get_num_available_sites park_information start_date end_date nights
              = Some ((num_available, maximum), printed)"
  from get_num_available_sites_Some [OF this]
  show "maximum = length park_information"
    and "\<exists>dates. candidate_dates start_date end_date = Some dates
                 \<and> num_available
                     = length (filter (site_counts dates
                         (effective_nights nights (days_between end_date start_date)))
                         park_information)
                 \<and> map fst printed
                     = map fst (filter (site_counts dates
                         (effective_nights nights (days_between end_date start_date)))
                         park_information)"
    by (auto simp: concat_site_lines)
next
  obtain dates where c: "candidate_dates start_date end_date = Some dates"
    using candidate_dates_eq [OF assms] by blast
  show "get_num_available_sites [] start_date end_date nights = Some ((0, 0), [])"
    by (simp add: get_num_available_sites_def c Let_def)
qed

theorem return_shape_witness:
  "valid_date \<lparr>year = 2024, month = 6, day = 1\<rparr>
   \<and> valid_date \<lparr>year = 2024, month = 6, day = 10\<rparr>
   \<and> get_num_available_sites
        [(''A'', [''2024-06-07T00:00:00Z'', ''2024-06-08T00:00:00Z'', ''2024-06-09T00:00:00Z'']),
         (''B'', [''2024-06-05T00:00:00Z''])]
        \<lparr>year = 2024, month = 6, day = 1\<rparr> \<lparr>year = 2024, month = 6, day = 10\<rparr> (Some 2)
      = Some ((1, 2), [(''A'', [[''2024-06-07'', ''2024-06-08'', ''2024-06-09'']])])
   \<and> candidate_dates \<lparr>year = 2024, month = 6, day = 1\<rparr> \<lparr>year = 2024, month = 6, day = 10\<rparr>
      = Some [''2024-06-09T00:00:00Z'', ''2024-06-08T00:00:00Z'', ''2024-06-07T00:00:00Z'',
              ''2024-06-02T00:00:00Z'', ''2024-06-01T00:00:00Z'']
   \<and> length (filter (site_counts
          [''2024-06-09T00:00:00Z'', ''2024-06-08T00:00:00Z'', ''2024-06-07T00:00:00Z'',
           ''2024-06-02T00:00:00Z'', ''2024-06-01T00:00:00Z''] 2)
        [(''A'', [''2024-06-07T00:00:00Z'', ''2024-06-08T00:00:00Z'', ''2024-06-09T00:00:00Z'']),
         (''B'', [''2024-06-05T00:00:00Z''])]) = 1
   \<and> get_num_available_sites [] \<lparr>year = 2024, month = 6, day = 1\<rparr>
         \<lparr>year = 2024, month = 6, day = 10\<rparr> (Some 2) = Some ((0, 0), [])"
proof -
  let ?park = "[(''A'', [''2024-06-07T00:00:00Z'', ''2024-06-08T00:00:00Z'',
                        ''2024-06-09T00:00:00Z'']),
                (''B'', [''2024-06-05T00:00:00Z''])]"
  have s: "valid_date \<lparr>year = 2024, month = 6, day = 1\<rparr>" by code_simp
  have e: "valid_date \<lparr>year = 2024, month = 6, day = 10\<rparr>" by code_simp
  have r: "get_num_available_sites ?park
        \<lparr>year = 2024, month = 6, day = 1\<rparr> \<lparr>year = 2024, month = 6, day = 10\<rparr> (Some 2)
      = Some ((1, 2), [(''A'', [[''2024-06-07'', ''2024-06-08'', ''2024-06-09'']])])"
    by code_simp
  have c: "candidate_dates \<lparr>year = 2024, month = 6, day = 1\<rparr>
        \<lparr>year = 2024, month = 6, day = 10\<rparr>
      = Some [''2024-06-09T00:00:00Z'', ''2024-06-08T00:00:00Z'', ''2024-06-07T00:00:00Z'',
              ''2024-06-02T00:00:00Z'', ''2024-06-01T00:00:00Z'']"
    by code_simp
  have n: "effective_nights (Some 2)
      (days_between \<lparr>year = 2024, month = 6, day = 10\<rparr> \<lparr>year = 2024, month = 6, day = 1\<rparr>) = 2"
    by code_simp
  note t = return_shape [OF s e, of ?park "Some 2"]
  from t have "\<forall>num_available maximum printed.
      get_num_available_sites ?park \<lparr>year = 2024, month = 6, day = 1\<rparr>
         \<lparr>year = 2024, month = 6, day = 10\<rparr> (Some 2)
        = Some ((num_available, maximum), printed) \<longrightarrow>
      maximum = length ?park
      \<and> (\<exists>dates. candidate_dates \<lparr>year = 2024, month = 6, day = 1\<rparr>
                     \<lparr>year = 2024, month = 6, day = 10\<rparr> = Some dates
           \<and> num_available = length (filter (site_counts dates
                 (effective_nights (Some 2) (days_between \<lparr>year = 2024, month = 6, day = 10\<rparr>
                    \<lparr>year = 2024, month = 6, day = 1\<rparr>))) ?park)
           \<and> map fst printed = map fst (filter (site_counts dates
                 (effective_nights (Some 2) (days_between \<lparr>year = 2024, month = 6, day = 10\<rparr>
                    \<lparr>year = 2024, month = 6, day = 1\<rparr>))) ?park))"
    by blast
  with r have "length (filter (site_counts
          [''2024-06-09T00:00:00Z'', ''2024-06-08T00:00:00Z'', ''2024-06-07T00:00:00Z'',
           ''2024-06-02T00:00:00Z'', ''2024-06-01T00:00:00Z''] 2) ?park) = 1"
    unfolding c n by auto
  moreover from t have "get_num_available_sites [] \<lparr>year = 2024, month = 6, day = 1\<rparr>
         \<lparr>year = 2024, month = 6, day = 10\<rparr> (Some 2) = Some ((0, 0), [])"
    by blast
  ultimately show ?thesis using s e r c by (intro conjI)
qed

text \<open>
  On day numbers that are already in ascending order the analyzer and the sorted reading
  of the specification agree.
\<close>

lemma consecutive_nights_sorted:
  assumes "consecutive_nights desired nights = Some (found, options)"
    "those (map strptime_response desired) = Some parsed" "sorted (map toordinal parsed)"
  shows "found \<longleftrightarrow> spec_consecutive_nights (map toordinal parsed) nights"
proof -
  have "sort (map toordinal parsed) = map toordinal parsed"
    using assms(3) by (rule sorted_sort_id)
  then have "spec_consecutive_nights (map toordinal parsed) nights
      \<longleftrightarrow> filter (\<lambda>(key, l). int (length l) \<ge> nights)
            (groupby (counted_keys (map toordinal parsed))) \<noteq> []"
    by (auto simp: spec_consecutive_nights_def filter_empty_conv)
  then show ?thesis
    using consecutive_nights_Some [OF assms(1)] assms(2) by auto
qed

text \<open>
  C2.  The analyzer takes the day numbers in the order in which the site lists its dates
  and does not sort them.  A site listing Saturday 2024-06-08 before Friday 2024-06-07 is
  not counted for two nights, although the two days are consecutive, as the sorted day
  numbers show; with the two dates in ascending order the same site is counted.
\<close>

theorem unsorted_dates_not_counted:
  "get_num_available_sites
     [(''A'', [''2024-06-08T00:00:00Z'', ''2024-06-07T00:00:00Z''])]
     \<lparr>year = 2024, month = 6, day = 1\<rparr> \<lparr>year = 2024, month = 6, day = 10\<rparr> (Some 2)
   = Some ((0, 1), [])
   \<and> get_num_available_sites
     [(''A'', [''2024-06-07T00:00:00Z'', ''2024-06-08T00:00:00Z''])]
     \<lparr>year = 2024, month = 6, day = 1\<rparr> \<lparr>year = 2024, month = 6, day = 10\<rparr> (Some 2)
   = Some ((1, 1), [(''A'', [[''2024-06-07'', ''2024-06-08'']])])
   \<and> map toordinal [\<lparr>year = 2024, month = 6, day = 8\<rparr>, \<lparr>year = 2024, month = 6, day = 7\<rparr>]
       = [739045, 739044]
   \<and> spec_consecutive_nights [739045, 739044] 2
   \<and> consecutive_nights [''2024-06-08T00:00:00Z'', ''2024-06-07T00:00:00Z''] 2
       = Some (False, [])"
  by code_simp

end
